theory Spec2Isabelle
  imports Main "HOL-Library.Word"
begin

unbundle bit_operations_syntax

section \<open>The entry points of taihen.c\<close>

text \<open>
  \<^verbatim>\<open>taihen.c\<close> is the entry-point layer of the framework. Every function in it
  forwards to functions that are declared in headers and defined in other files
  (\<^verbatim>\<open>module.h\<close>, \<^verbatim>\<open>patches.h\<close>, \<^verbatim>\<open>proc_map.h\<close>, \<^verbatim>\<open>hen.h\<close>, \<^verbatim>\<open>taihen/parser.h\<close>).
  Those functions are parameters of the model: a record \<open>collab\<close> holds one field per
  external function, over an arbitrary type \<open>'st\<close> of system states. The \<^verbatim>\<open>LOG\<close> macro
  only prints and is left out.
\<close>

subsection \<open>Types\<close>

text \<open>
  \<^verbatim>\<open>SceUID\<close> and \<^verbatim>\<open>int\<close> values are only passed on and compared with 0 in this file, no
  arithmetic is done on them, so they are integers. Addresses are 32-bit words, as
  \<^verbatim>\<open>addr | 1\<close> works on their bits.
\<close>
type_synonym SceUID = int
type_synonym uintptr_t = "32 word"
type_synonym uint32_t = "32 word"
type_synonym byte = "8 word"

text \<open>An opaque reference to a hook; the \<^verbatim>\<open>p_hook\<close> out-parameter receives one.\<close>
type_synonym tai_hook_ref_t = int

text \<open>
  \<^verbatim>\<open>tai_plugin_load_t\<close>: the fields \<^verbatim>\<open>pid\<close> and \<^verbatim>\<open>flags\<close> that
  \<^verbatim>\<open>taiLoadPluginsForTitleForKernel\<close> assigns (prefixed, as \<open>pid\<close> names an argument
  almost everywhere).
\<close>
record tai_plugin_load_t =
  param_pid :: SceUID
  param_flags :: int

subsection \<open>Calls that leave the file\<close>

text \<open>
  The model keeps a log of every call the code makes to a function defined outside
  \<^verbatim>\<open>taihen.c\<close>, in the order the calls are made. The log is the only addition to the
  state the external functions work on; the external functions cannot see or change it.
\<close>

datatype call =
    Call_module_get_export_func SceUID string uint32_t uint32_t
  | Call_module_get_import_func SceUID string uint32_t uint32_t
  | Call_module_get_offset SceUID SceUID int uint32_t
  | Call_tai_hook_func_abs SceUID uintptr_t uintptr_t
  | Call_tai_hook_release SceUID tai_hook_ref_t
  | Call_tai_inject_abs SceUID uintptr_t nat
  | Call_tai_inject_release SceUID
  | Call_taihen_config_parse string string tai_plugin_load_t
  | Call_proc_map_init
  | Call_patches_init
  | Call_hen_add_patches
  | Call_hen_remove_patches
  | Call_patches_deinit
  | Call_proc_map_deinit

record 'st machine =
  sys :: 'st
  calls :: "call list"

text \<open>
  The external functions. A resolver (\<^verbatim>\<open>module_get_*\<close>) reads the state and yields its
  return value together with the word it stores through its out-parameter. A pointer
  that the callee only reads (\<^verbatim>\<open>src\<close>, \<^verbatim>\<open>data\<close>) is the sequence of bytes it points to,
  indexed by offset. \<^verbatim>\<open>tai_hook_func_abs\<close> yields its return value and what it stored
  through \<^verbatim>\<open>p_hook\<close>, if anything. \<^verbatim>\<open>g_config\<close> is the global of \<^verbatim>\<open>hen.c\<close>, \<open>None\<close> when
  it is the null pointer. The last fields are macros of headers outside the file.
\<close>

record 'st collab =
  module_get_export_func :: "SceUID \<Rightarrow> string \<Rightarrow> uint32_t \<Rightarrow> uint32_t \<Rightarrow> 'st \<Rightarrow> int \<times> uintptr_t"
  module_get_import_func :: "SceUID \<Rightarrow> string \<Rightarrow> uint32_t \<Rightarrow> uint32_t \<Rightarrow> 'st \<Rightarrow> int \<times> uintptr_t"
  module_get_offset :: "SceUID \<Rightarrow> SceUID \<Rightarrow> int \<Rightarrow> uint32_t \<Rightarrow> 'st \<Rightarrow> int \<times> uintptr_t"
  tai_hook_func_abs :: "SceUID \<Rightarrow> uintptr_t \<Rightarrow> uintptr_t \<Rightarrow> 'st
                         \<Rightarrow> (SceUID \<times> tai_hook_ref_t option) \<times> 'st"
  tai_hook_release :: "SceUID \<Rightarrow> tai_hook_ref_t \<Rightarrow> 'st \<Rightarrow> int \<times> 'st"
  tai_inject_abs :: "SceUID \<Rightarrow> uintptr_t \<Rightarrow> (nat \<Rightarrow> byte) \<Rightarrow> nat \<Rightarrow> 'st \<Rightarrow> SceUID \<times> 'st"
  tai_inject_release :: "SceUID \<Rightarrow> 'st \<Rightarrow> int \<times> 'st"
  g_config :: "'st \<Rightarrow> string option"
  taihen_config_parse :: "string \<Rightarrow> string \<Rightarrow> (string \<Rightarrow> tai_plugin_load_t \<Rightarrow> 'st \<Rightarrow> 'st)
                           \<Rightarrow> tai_plugin_load_t \<Rightarrow> 'st \<Rightarrow> 'st"
  hen_load_plugin :: "string \<Rightarrow> tai_plugin_load_t \<Rightarrow> 'st \<Rightarrow> 'st"
  proc_map_init :: "'st \<Rightarrow> int \<times> 'st"
  patches_init :: "'st \<Rightarrow> int \<times> 'st"
  hen_add_patches :: "'st \<Rightarrow> int \<times> 'st"
  hen_remove_patches :: "'st \<Rightarrow> int \<times> 'st"
  patches_deinit :: "'st \<Rightarrow> int \<times> 'st"
  proc_map_deinit :: "'st \<Rightarrow> int \<times> 'st"
  TAI_ERROR_SYSTEM :: int
  SCE_KERNEL_START_SUCCESS :: int
  SCE_KERNEL_START_FAILED :: int
  SCE_KERNEL_STOP_SUCCESS :: int

text \<open>
  Modelled from the spec: the macro \<^verbatim>\<open>TAI_SUCCESS\<close> is defined in a header that is not
  under src/. The doc comments of \<^verbatim>\<open>taihen.c\<close> ("Zero on success") and the spec
  ("0 or negative error") give its value.
\<close>
definition TAI_SUCCESS :: int where
  "TAI_SUCCESS = 0"

text \<open>Calling an external function: log the call, then let it act on the system state.\<close>

definition invoke :: "call \<Rightarrow> ('st \<Rightarrow> 'a \<times> 'st) \<Rightarrow> 'st machine \<Rightarrow> 'a \<times> 'st machine" where
  "invoke c f m =
     (case f (sys m) of (r, s') \<Rightarrow> (r, \<lparr>sys = s', calls = calls m @ [c]\<rparr>))"

definition query :: "call \<Rightarrow> ('st \<Rightarrow> 'a) \<Rightarrow> 'st machine \<Rightarrow> 'a \<times> 'st machine" where
  "query c f m = invoke c (\<lambda>s. (f s, s)) m"

subsection \<open>Hooks\<close>

definition taiHookFunctionAbs ::
  "'st collab \<Rightarrow> SceUID \<Rightarrow> uintptr_t \<Rightarrow> uintptr_t \<Rightarrow> 'st machine
     \<Rightarrow> (SceUID \<times> tai_hook_ref_t option) \<times> 'st machine" where
  "taiHookFunctionAbs E pid dest_func hook_func m =
     invoke (Call_tai_hook_func_abs pid dest_func hook_func)
       (tai_hook_func_abs E pid dest_func hook_func) m"

definition taiHookFunctionExportForKernel ::
  "'st collab \<Rightarrow> SceUID \<Rightarrow> string \<Rightarrow> uint32_t \<Rightarrow> uint32_t \<Rightarrow> uintptr_t \<Rightarrow> 'st machine
     \<Rightarrow> (SceUID \<times> tai_hook_ref_t option) \<times> 'st machine" where
  "taiHookFunctionExportForKernel E pid module library_nid func_nid hook_func m =
     (case query (Call_module_get_export_func pid module library_nid func_nid)
             (module_get_export_func E pid module library_nid func_nid) m of
        ((ret, func), m1) \<Rightarrow>
          if ret < 0 then ((ret, None), m1)
          else taiHookFunctionAbs E pid func hook_func m1)"

definition taiHookFunctionImportForKernel ::
  "'st collab \<Rightarrow> SceUID \<Rightarrow> string \<Rightarrow> uint32_t \<Rightarrow> uint32_t \<Rightarrow> uintptr_t \<Rightarrow> 'st machine
     \<Rightarrow> (SceUID \<times> tai_hook_ref_t option) \<times> 'st machine" where
  "taiHookFunctionImportForKernel E pid module import_library_nid import_func_nid hook_func m =
     (case query (Call_module_get_import_func pid module import_library_nid import_func_nid)
             (module_get_import_func E pid module import_library_nid import_func_nid) m of
        ((ret, stub), m1) \<Rightarrow>
          if ret < 0 then ((ret, None), m1)
          else taiHookFunctionAbs E pid stub hook_func m1)"

definition taiHookFunctionOffsetForKernel ::
  "'st collab \<Rightarrow> SceUID \<Rightarrow> SceUID \<Rightarrow> int \<Rightarrow> uint32_t \<Rightarrow> int \<Rightarrow> uintptr_t \<Rightarrow> 'st machine
     \<Rightarrow> (SceUID \<times> tai_hook_ref_t option) \<times> 'st machine" where
  "taiHookFunctionOffsetForKernel E pid modid segidx offset thumb hook_func m =
     (case query (Call_module_get_offset pid modid segidx offset)
             (module_get_offset E pid modid segidx offset) m of
        ((ret, addr), m1) \<Rightarrow>
          if ret < 0 then ((ret, None), m1)
          else let addr = (if thumb \<noteq> 0 then addr OR 1 else addr)
               in taiHookFunctionAbs E pid addr hook_func m1)"

definition taiHookReleaseForKernel ::
  "'st collab \<Rightarrow> SceUID \<Rightarrow> tai_hook_ref_t \<Rightarrow> 'st machine \<Rightarrow> int \<times> 'st machine" where
  "taiHookReleaseForKernel E tai_uid hook m =
     invoke (Call_tai_hook_release tai_uid hook) (tai_hook_release E tai_uid hook) m"

subsection \<open>Injections\<close>

definition taiInjectAbsForKernel ::
  "'st collab \<Rightarrow> SceUID \<Rightarrow> uintptr_t \<Rightarrow> (nat \<Rightarrow> byte) \<Rightarrow> nat \<Rightarrow> 'st machine
     \<Rightarrow> SceUID \<times> 'st machine" where
  "taiInjectAbsForKernel E pid dest src sz m =
     invoke (Call_tai_inject_abs pid dest sz) (tai_inject_abs E pid dest src sz) m"

definition taiInjectDataForKernel ::
  "'st collab \<Rightarrow> SceUID \<Rightarrow> SceUID \<Rightarrow> int \<Rightarrow> uint32_t \<Rightarrow> (nat \<Rightarrow> byte) \<Rightarrow> nat \<Rightarrow> 'st machine
     \<Rightarrow> SceUID \<times> 'st machine" where
  "taiInjectDataForKernel E pid modid segidx offset data sz m =
     (case query (Call_module_get_offset pid modid segidx offset)
             (module_get_offset E pid modid segidx offset) m of
        ((ret, addr), m1) \<Rightarrow>
          if ret < 0 then (ret, m1)
          else taiInjectAbsForKernel E pid addr data sz m1)"

definition taiInjectReleaseForKernel ::
  "'st collab \<Rightarrow> SceUID \<Rightarrow> 'st machine \<Rightarrow> int \<times> 'st machine" where
  "taiInjectReleaseForKernel E tai_uid m =
     invoke (Call_tai_inject_release tai_uid) (tai_inject_release E tai_uid) m"

subsection \<open>Plugins\<close>

definition taiLoadPluginsForTitleForKernel ::
  "'st collab \<Rightarrow> SceUID \<Rightarrow> string \<Rightarrow> int \<Rightarrow> 'st machine \<Rightarrow> int \<times> 'st machine" where
  "taiLoadPluginsForTitleForKernel E pid titleid flags m =
     (case g_config E (sys m) of
        Some config \<Rightarrow>
          let param = \<lparr>param_pid = pid, param_flags = flags\<rparr>
          in invoke (Call_taihen_config_parse config titleid param)
               (\<lambda>s. (TAI_SUCCESS, taihen_config_parse E config titleid (hen_load_plugin E) param s)) m
      | None \<Rightarrow> (TAI_ERROR_SYSTEM E, m))"

subsection \<open>Module entry points\<close>

text \<open>The arguments \<^verbatim>\<open>argc\<close> and \<^verbatim>\<open>args\<close> are unused and left out.\<close>

definition module_start :: "'st collab \<Rightarrow> 'st machine \<Rightarrow> int \<times> 'st machine" where
  "module_start E m =
     (case invoke Call_proc_map_init (proc_map_init E) m of
        (ret, m1) \<Rightarrow>
          if ret < 0 then (SCE_KERNEL_START_FAILED E, m1)
          else (case invoke Call_patches_init (patches_init E) m1 of
            (ret, m2) \<Rightarrow>
              if ret < 0 then (SCE_KERNEL_START_FAILED E, m2)
              else (case invoke Call_hen_add_patches (hen_add_patches E) m2 of
                (ret, m3) \<Rightarrow>
                  if ret < 0 then (SCE_KERNEL_START_FAILED E, m3)
                  else (SCE_KERNEL_START_SUCCESS E, m3))))"


section \<open>The Patch Store\<close>

text \<open>
  \<^verbatim>\<open>tai_hook_func_abs\<close>, \<^verbatim>\<open>tai_hook_release\<close>, \<^verbatim>\<open>tai_inject_abs\<close> and
  \<^verbatim>\<open>tai_inject_release\<close> are declared in \<^verbatim>\<open>patches.h\<close>; their bodies are not part of
  \<^verbatim>\<open>taihen.c\<close>. This section models them from the specification of the Patch Store,
  the Hook Chain Manager and the Memory Mutator.
\<close>

subsection \<open>Data model\<close>

text \<open>Modelled from the spec: the \<open>kind\<close> of a Patch Record, which is not under src/.\<close>
datatype patch_kind = Hook | Injection

text \<open>
  Modelled from the spec: the \<open>next_ref\<close> of a Hook Chain Entry, which is not under
  src/: a back-reference to the previously installed hook of the chain, given by its
  handle, or to the recorded original content if the entry is the innermost one.
\<close>
datatype next_ref = Previous SceUID | Original "byte list"

text \<open>Modelled from the spec: the Hook Chain Entry, which is not under src/.\<close>
record hook_chain_entry =
  chain_address :: uintptr_t
  hook_function :: uintptr_t
  next_ref :: next_ref

text \<open>
  Modelled from the spec: the Patch Record, which is not under src/. \<open>patch_size\<close> is
  the field the spec calls \<open>size\<close>; \<open>chain_entry\<close> is the chain-linkage metadata of a
  hook, \<open>None\<close> for an injection.
\<close>
record patch_record =
  handle :: SceUID
  owner_pid :: SceUID
  target_address :: uintptr_t
  kind :: patch_kind
  original_content :: "byte list"
  patch_size :: nat
  chain_entry :: "hook_chain_entry option"

text \<open>
  Modelled from the spec: the state the Patch Store works on, which is not under src/.
  It holds the memory of every address space (a byte per mapped address of a process),
  the table of active patches with the most recently installed first, and the next
  handle to hand out, so that a handle is never used twice.
\<close>
record tai =
  memory :: "SceUID \<times> uintptr_t \<rightharpoonup> byte"
  patch_store :: "patch_record list"
  next_handle :: SceUID

text \<open>Modelled from the spec: the failure kinds of its error taxonomy.\<close>
datatype tai_error =
  PatchExists | ResolutionFailed | RestrictedAddress | MutationFailed | InvalidHandle
  | SystemUnavailable

text \<open>
  Modelled from the spec: what it leaves to the platform and to the Process Registry,
  taken as parameters: which addresses a caller may not patch (\<open>is_restricted\<close>), the
  bytes of the redirect instruction placed at a target address for a hook function, and
  the result code of every failure kind.
\<close>
record platform =
  is_restricted :: "SceUID \<Rightarrow> uintptr_t \<Rightarrow> bool"
  hook_redirect :: "uintptr_t \<Rightarrow> uintptr_t \<Rightarrow> byte list"
  error_code :: "tai_error \<Rightarrow> int"

subsection \<open>Memory Mutator\<close>

text \<open>
  Modelled from the spec: the footprint of a patch, the addresses of \<open>n\<close> bytes from
  \<open>a\<close> on in the address space of \<open>pid\<close>; address arithmetic wraps at 32 bits.
\<close>
definition footprint :: "SceUID \<Rightarrow> uintptr_t \<Rightarrow> nat \<Rightarrow> (SceUID \<times> uintptr_t) list" where
  "footprint pid a n = map (\<lambda>i. (pid, a + of_nat i)) [0..<n]"

text \<open>Modelled from the spec: the range can be accessed, every address of it is mapped.\<close>
definition mapped :: "(SceUID \<times> uintptr_t \<rightharpoonup> byte) \<Rightarrow> SceUID \<Rightarrow> uintptr_t \<Rightarrow> nat \<Rightarrow> bool" where
  "mapped mem pid a n = list_all (\<lambda>x. mem x \<noteq> None) (footprint pid a n)"

text \<open>
  Modelled from the spec: the read of the Memory Mutator, which is not under src/. It
  bypasses protection and fails when the platform mechanism fails, here when an address
  of the range is not mapped.
\<close>
definition mem_read ::
  "(SceUID \<times> uintptr_t \<rightharpoonup> byte) \<Rightarrow> SceUID \<Rightarrow> uintptr_t \<Rightarrow> nat \<Rightarrow> byte list option" where
  "mem_read mem pid a n =
     (if mapped mem pid a n then Some (map (\<lambda>x. the (mem x)) (footprint pid a n)) else None)"

text \<open>
  Modelled from the spec: the write of the Memory Mutator, which is not under src/. It is
  all-or-nothing and fails when an address of the range is not mapped.
\<close>
definition mem_write ::
  "(SceUID \<times> uintptr_t \<rightharpoonup> byte) \<Rightarrow> SceUID \<Rightarrow> uintptr_t \<Rightarrow> byte list
     \<Rightarrow> (SceUID \<times> uintptr_t \<rightharpoonup> byte) option" where
  "mem_write mem pid a bs =
     (if mapped mem pid a (length bs)
      then Some (mem(footprint pid a (length bs) [\<mapsto>] bs)) else None)"

subsection \<open>Install\<close>

text \<open>Modelled from the spec: the lookup of a handle in the table of active patches.\<close>
definition find_handle :: "tai \<Rightarrow> SceUID \<Rightarrow> patch_record option" where
  "find_handle s h = find (\<lambda>r. handle r = h) (patch_store s)"

text \<open>
  Modelled from the spec: the most recently installed active patch at an exact address
  of a process, if the address is patched.
\<close>
definition patch_at :: "tai \<Rightarrow> SceUID \<Rightarrow> uintptr_t \<Rightarrow> patch_record option" where
  "patch_at s pid a = find (\<lambda>r. owner_pid r = pid \<and> target_address r = a) (patch_store s)"

text \<open>
  Modelled from the spec: the side effect of \<open>install\<close>. It reads and keeps the original
  content, overwrites \<open>sz\<close> bytes with the new content, and adds the record under a
  fresh handle. A failed read or write leaves the state as it was.
\<close>
definition commit ::
  "platform \<Rightarrow> SceUID \<Rightarrow> uintptr_t \<Rightarrow> nat \<Rightarrow> patch_kind \<Rightarrow> byte list
     \<Rightarrow> (byte list \<Rightarrow> hook_chain_entry option) \<Rightarrow> tai \<Rightarrow> (tai_error + SceUID) \<times> tai" where
  "commit P pid a sz k new_content link s =
     (case mem_read (memory s) pid a sz of
        None \<Rightarrow> (Inl MutationFailed, s)
      | Some original \<Rightarrow>
          (case mem_write (memory s) pid a (take sz new_content) of
             None \<Rightarrow> (Inl MutationFailed, s)
           | Some mem' \<Rightarrow>
               (Inr (next_handle s),
                s\<lparr>memory := mem',
                  patch_store :=
                    \<lparr>handle = next_handle s, owner_pid = pid, target_address = a, kind = k,
                     original_content = original, patch_size = sz,
                     chain_entry = link original\<rparr> # patch_store s,
                  next_handle := next_handle s + 1\<rparr>)))"

text \<open>
  Modelled from the spec: the Patch Store operation
  \<open>install(owner_pid, target_address, size, kind, new_content)\<close> together with the
  insertion into the hook chain, which are not under src/. \<open>hook_func\<close> is the
  \<open>hook_function\<close> of the new chain entry and is used for the kind \<open>Hook\<close> only.
  The address is validated first. An injection fails at an address that already holds a
  patch, a hook fails at an address that holds an injection, and a hook at an address
  that holds hooks extends the chain: its \<open>next_ref\<close> is the hook whose redirect is
  installed. On an unpatched address the \<open>next_ref\<close> of a hook is the captured
  original content.
\<close>
definition install ::
  "platform \<Rightarrow> SceUID \<Rightarrow> uintptr_t \<Rightarrow> nat \<Rightarrow> patch_kind \<Rightarrow> byte list \<Rightarrow> uintptr_t \<Rightarrow> tai
     \<Rightarrow> (tai_error + SceUID) \<times> tai" where
  "install P pid a sz k new_content hook_func s =
     (if is_restricted P pid a then (Inl RestrictedAddress, s)
      else case patch_at s pid a of
        Some topmost \<Rightarrow>
          if k = Injection \<or> kind topmost = Injection then (Inl PatchExists, s)
          else commit P pid a sz k new_content
                 (\<lambda>_. Some \<lparr>chain_address = a, hook_function = hook_func,
                             next_ref = Previous (handle topmost)\<rparr>) s
      | None \<Rightarrow>
          commit P pid a sz k new_content
            (\<lambda>original. case k of
               Hook \<Rightarrow> Some \<lparr>chain_address = a, hook_function = hook_func,
                              next_ref = Original original\<rparr>
             | Injection \<Rightarrow> None) s)"

subsection \<open>Release\<close>

text \<open>Modelled from the spec: deleting the record of \<open>h\<close>.\<close>
definition remove_record :: "SceUID \<Rightarrow> patch_record list \<Rightarrow> patch_record list" where
  "remove_record h rs = filter (\<lambda>r. handle r \<noteq> h) rs"

text \<open>
  Modelled from the spec: unlinking \<open>h\<close>; an entry that points at \<open>h\<close> is relinked to
  \<open>nr\<close>, where \<open>h\<close> pointed.
\<close>
definition relink :: "SceUID \<Rightarrow> next_ref \<Rightarrow> patch_record \<Rightarrow> patch_record" where
  "relink h nr r =
     (case chain_entry r of
        Some e \<Rightarrow> if next_ref e = Previous h then r\<lparr>chain_entry := Some (e\<lparr>next_ref := nr\<rparr>)\<rparr> else r
      | None \<Rightarrow> r)"

text \<open>
  Modelled from the spec: the content that makes the target of a \<open>next_ref\<close> the active
  one, a redirect to the previous hook or the original content.
\<close>
definition active_content :: "platform \<Rightarrow> tai \<Rightarrow> next_ref \<Rightarrow> byte list option" where
  "active_content P s nr =
     (case nr of
        Original c \<Rightarrow> Some c
      | Previous p \<Rightarrow>
          (case find_handle s p of
             None \<Rightarrow> None
           | Some rp \<Rightarrow>
               (case chain_entry rp of
                  None \<Rightarrow> None
                | Some ep \<Rightarrow> Some (hook_redirect P (chain_address ep) (hook_function ep)))))"

text \<open>
  Modelled from the spec: restoring; \<open>content\<close> is written over the patched address of
  \<open>r\<close> and the record is deleted. A failed write leaves the state as it was.
\<close>
definition restore :: "patch_record \<Rightarrow> byte list \<Rightarrow> tai \<Rightarrow> (tai_error + unit) \<times> tai" where
  "restore r content s =
     (case mem_write (memory s) (owner_pid r) (target_address r) content of
        None \<Rightarrow> (Inl MutationFailed, s)
      | Some mem' \<Rightarrow>
          (Inr (),
           s\<lparr>memory := mem', patch_store := remove_record (handle r) (patch_store s)\<rparr>))"

text \<open>
  Modelled from the spec: the Patch Store operation \<open>release(handle)\<close> with the Hook
  Chain Manager's removal rules, which are not under src/. An unknown handle fails. An
  injection restores its original content. The topmost hook of a chain restores memory
  to its \<open>next_ref\<close>'s target; any other hook is unlinked without touching memory.
\<close>
definition release :: "platform \<Rightarrow> SceUID \<Rightarrow> tai \<Rightarrow> (tai_error + unit) \<times> tai" where
  "release P h s =
     (case find_handle s h of
        None \<Rightarrow> (Inl InvalidHandle, s)
      | Some r \<Rightarrow>
          (case chain_entry r of
             None \<Rightarrow> restore r (original_content r) s
           | Some e \<Rightarrow>
               if map_option handle (patch_at s (owner_pid r) (target_address r)) = Some h
               then (case active_content P s (next_ref e) of
                       None \<Rightarrow> (Inl MutationFailed, s)
                     | Some content \<Rightarrow> restore r content s)
               else (Inr (),
                     s\<lparr>patch_store :=
                         map (relink h (next_ref e)) (remove_record h (patch_store s))\<rparr>)))"

text \<open>
  Modelled from the spec: what the call-through of a hook resolves to, the next hook
  function or the original content.
\<close>
datatype call_target = Next_hook uintptr_t | Original_content "byte list"

text \<open>Modelled from the spec: the call-through target of the hook with handle \<open>h\<close>.\<close>
definition call_through :: "tai \<Rightarrow> SceUID \<Rightarrow> call_target option" where
  "call_through s h =
     (case find_handle s h of
        None \<Rightarrow> None
      | Some r \<Rightarrow>
          (case chain_entry r of
             None \<Rightarrow> None
           | Some e \<Rightarrow>
               (case next_ref e of
                  Original c \<Rightarrow> Some (Original_content c)
                | Previous p \<Rightarrow>
                    (case find_handle s p of
                       None \<Rightarrow> None
                     | Some rp \<Rightarrow> map_option (\<lambda>ep. Next_hook (hook_function ep)) (chain_entry rp)))))"

subsection \<open>The functions of patches.h\<close>

text \<open>
  Modelled from the spec: \<^verbatim>\<open>tai_hook_func_abs\<close>, which is not under src/. The spec has
  each entry point delegate to the Patch Store and return a non-negative handle on
  success, or the code of the failure kind. A hook installs the redirect to its hook
  function, whose length is the patch's size, and stores a reference to the new entry
  (its handle) through \<^verbatim>\<open>p_hook\<close> on success.
\<close>
definition patches_hook_func_abs ::
  "platform \<Rightarrow> SceUID \<Rightarrow> uintptr_t \<Rightarrow> uintptr_t \<Rightarrow> tai \<Rightarrow> (SceUID \<times> tai_hook_ref_t option) \<times> tai" where
  "patches_hook_func_abs P pid dest_func hook_func s =
     (case install P pid dest_func (length (hook_redirect P dest_func hook_func)) Hook
             (hook_redirect P dest_func hook_func) hook_func s of
        (Inl e, s') \<Rightarrow> ((error_code P e, None), s')
      | (Inr uid, s') \<Rightarrow> ((uid, Some uid), s'))"

text \<open>
  Modelled from the spec: \<^verbatim>\<open>tai_inject_abs\<close>, which is not under src/. An injection
  installs the first \<open>sz\<close> bytes at \<^verbatim>\<open>src\<close>.
\<close>
definition patches_inject_abs ::
  "platform \<Rightarrow> SceUID \<Rightarrow> uintptr_t \<Rightarrow> (nat \<Rightarrow> byte) \<Rightarrow> nat \<Rightarrow> tai \<Rightarrow> SceUID \<times> tai" where
  "patches_inject_abs P pid dest src sz s =
     (case install P pid dest sz Injection (map src [0..<sz]) 0 s of
        (Inl e, s') \<Rightarrow> (error_code P e, s')
      | (Inr uid, s') \<Rightarrow> (uid, s'))"

text \<open>
  Modelled from the spec: \<^verbatim>\<open>tai_hook_release\<close> and \<^verbatim>\<open>tai_inject_release\<close>, which are
  not under src/. Both delegate to \<open>release\<close>, which takes the handle only, and return 0
  on success.
\<close>
definition patches_release :: "platform \<Rightarrow> SceUID \<Rightarrow> tai \<Rightarrow> int \<times> tai" where
  "patches_release P tai_uid s =
     (case release P tai_uid s of
        (Inl e, s') \<Rightarrow> (error_code P e, s')
      | (Inr _, s') \<Rightarrow> (TAI_SUCCESS, s'))"

text \<open>
  Modelled from the spec: the external functions \<open>E\<close> with the four functions of
  \<^verbatim>\<open>patches.h\<close> that \<^verbatim>\<open>taihen.c\<close> calls bound to the modelled Patch Store.
\<close>
definition with_patch_store :: "platform \<Rightarrow> tai collab \<Rightarrow> tai collab" where
  "with_patch_store P E =
     E\<lparr>tai_hook_func_abs := patches_hook_func_abs P,
       tai_hook_release := (\<lambda>tai_uid hook. patches_release P tai_uid),
       tai_inject_abs := patches_inject_abs P,
       tai_inject_release := patches_release P\<rparr>"

section \<open>Well-formed stores and hook chains\<close>

text \<open>
  What the spec leaves open about the platform: the redirect has a fixed footprint at
  an address, and every failure kind has a negative result code.
\<close>
definition platform_ok :: "platform \<Rightarrow> bool" where
  "platform_ok P \<longleftrightarrow>
     (\<forall>a f g. length (hook_redirect P a f) = length (hook_redirect P a g)) \<and>
     (\<forall>e. error_code P e < 0)"

text \<open>
  The bookkeeping facts that hold of every record of a store the operations have built:
  its handle has been handed out, its address was validated, its footprint is mapped,
  and its chain entry agrees with its kind and points at a handle that has been handed
  out.
\<close>
definition record_ok :: "platform \<Rightarrow> tai \<Rightarrow> patch_record \<Rightarrow> bool" where
  "record_ok P s r \<longleftrightarrow>
     handle r < next_handle s \<and>
     \<not> is_restricted P (owner_pid r) (target_address r) \<and>
     mapped (memory s) (owner_pid r) (target_address r) (patch_size r) \<and>
     (case chain_entry r of
        None \<Rightarrow> kind r = Injection
      | Some e \<Rightarrow>
          kind r = Hook \<and> chain_address e = target_address r \<and>
          patch_size r = length (hook_redirect P (target_address r) (hook_function e)) \<and>
          (case next_ref e of Previous p \<Rightarrow> p < next_handle s | Original c \<Rightarrow> True))"

definition store_ok :: "platform \<Rightarrow> tai \<Rightarrow> bool" where
  "store_ok P s \<longleftrightarrow>
     0 \<le> next_handle s \<and> distinct (map handle (patch_store s)) \<and>
     list_all (record_ok P s) (patch_store s)"

subsection \<open>A chain of hooks at one address\<close>

text \<open>
  A chain is described by its hooks, most recently installed first, each with its handle
  and hook function. \<open>succ_ref\<close> is the \<open>next_ref\<close> of an entry followed by the
  entries \<open>hfs\<close>; \<open>after h\<close> are the entries installed before \<open>h\<close>.
\<close>
definition succ_ref :: "byte list \<Rightarrow> (SceUID \<times> uintptr_t) list \<Rightarrow> next_ref" where
  "succ_ref orig hfs = (case hfs of [] \<Rightarrow> Original orig | (h', _) # _ \<Rightarrow> Previous h')"

definition after :: "SceUID \<Rightarrow> (SceUID \<times> uintptr_t) list \<Rightarrow> (SceUID \<times> uintptr_t) list" where
  "after h hfs = tl (dropWhile (\<lambda>x. fst x \<noteq> h) hfs)"

text \<open>The records of a chain, in the order of the table.\<close>
fun chain_records ::
  "SceUID \<Rightarrow> uintptr_t \<Rightarrow> byte list \<Rightarrow> (SceUID \<times> uintptr_t) list \<Rightarrow> patch_record list \<Rightarrow> bool" where
  "chain_records pid a orig [] [] = True"
| "chain_records pid a orig ((h, f) # hfs) (r # rs) =
     (handle r = h \<and> owner_pid r = pid \<and> target_address r = a \<and> kind r = Hook \<and>
      chain_entry r = Some \<lparr>chain_address = a, hook_function = f,
                            next_ref = (case hfs of [] \<Rightarrow> Original orig
                                        | (h', _) # _ \<Rightarrow> Previous h')\<rparr> \<and>
      chain_records pid a orig hfs rs)"
| "chain_records pid a orig _ _ = False"

subsection \<open>The patches at one address\<close>

text \<open>
  The records at an exact address of a process, most recently installed first; the hooks
  among them, each with its handle and hook function; and the original content that the
  innermost hook of the chain at the address refers to.
\<close>
definition site_records :: "tai \<Rightarrow> SceUID \<Rightarrow> uintptr_t \<Rightarrow> patch_record list" where
  "site_records s pid a =
     filter (\<lambda>r. owner_pid r = pid \<and> target_address r = a) (patch_store s)"

definition hooks_of :: "patch_record list \<Rightarrow> (SceUID \<times> uintptr_t) list" where
  "hooks_of rs =
     List.map_filter (\<lambda>r. map_option (\<lambda>e. (handle r, hook_function e)) (chain_entry r)) rs"

definition hooks_at :: "tai \<Rightarrow> SceUID \<Rightarrow> uintptr_t \<Rightarrow> (SceUID \<times> uintptr_t) list" where
  "hooks_at s pid a = hooks_of (site_records s pid a)"

definition original_of :: "patch_record list \<Rightarrow> byte list option" where
  "original_of rs =
     (case rs of
        [] \<Rightarrow> None
      | _ # _ \<Rightarrow>
          (case chain_entry (last rs) of
             None \<Rightarrow> None
           | Some e \<Rightarrow> (case next_ref e of Original c \<Rightarrow> Some c | Previous _ \<Rightarrow> None)))"

definition chain_original :: "tai \<Rightarrow> SceUID \<Rightarrow> uintptr_t \<Rightarrow> byte list option" where
  "chain_original s pid a = original_of (site_records s pid a)"

text \<open>
  The content an address goes back to once every patch at it is released: the original
  content of its injection, or that of its chain of hooks.
\<close>
definition original_at :: "tai \<Rightarrow> SceUID \<Rightarrow> uintptr_t \<Rightarrow> byte list option" where
  "original_at s pid a =
     (case site_records s pid a of
        [] \<Rightarrow> None
      | r # rest \<Rightarrow>
          (case chain_entry r of
             None \<Rightarrow> Some (original_content r)
           | Some _ \<Rightarrow> original_of (r # rest)))"

text \<open>
  The content that the hooks \<open>hfs\<close> of a chain make active at the address: the redirect
  to the topmost hook, or the original content when no hook is left.
\<close>
definition chain_content :: "platform \<Rightarrow> uintptr_t \<Rightarrow> byte list \<Rightarrow> (SceUID \<times> uintptr_t) list \<Rightarrow> byte list" where
  "chain_content P a orig hfs = (case hfs of [] \<Rightarrow> orig | (h, f) # _ \<Rightarrow> hook_redirect P a f)"

text \<open>
  The links of a store are in order when every patched address holds either a single
  injection, with as many original bytes as its size, or a chain of hooks, each linked
  to the hook installed before it and the innermost one to the original content. Like
  \<open>store_ok\<close>, this holds of the empty store and is kept by every install and release.
\<close>
definition site_ok :: "patch_record list \<Rightarrow> bool" where
  "site_ok rs =
     (case rs of
        [] \<Rightarrow> True
      | r # rest \<Rightarrow>
          (case chain_entry r of
             None \<Rightarrow> rest = [] \<and> length (original_content r) = patch_size r
           | Some _ \<Rightarrow>
               (case original_of rs of
                  None \<Rightarrow> False
                | Some orig \<Rightarrow>
                    length orig = patch_size r \<and>
                    chain_records (owner_pid r) (target_address r) orig (hooks_of rs) rs)))"

definition links_ok :: "tai \<Rightarrow> bool" where
  "links_ok s =
     list_all (\<lambda>r. site_ok (site_records s (owner_pid r) (target_address r))) (patch_store s)"

subsection \<open>Sequences of calls\<close>

text \<open>
  A call of one of the entry points that install or release a patch, and the run of a
  sequence of such calls from a state, with the values the calls return.
\<close>
datatype patch_op =
    Hook_abs SceUID uintptr_t uintptr_t
  | Hook_export SceUID string uint32_t uint32_t uintptr_t
  | Hook_import SceUID string uint32_t uint32_t uintptr_t
  | Hook_offset SceUID SceUID int uint32_t int uintptr_t
  | Hook_release SceUID tai_hook_ref_t
  | Inject_abs SceUID uintptr_t "nat \<Rightarrow> byte" nat
  | Inject_data SceUID SceUID int uint32_t "nat \<Rightarrow> byte" nat
  | Inject_release SceUID

fun run_op :: "'st collab \<Rightarrow> patch_op \<Rightarrow> 'st machine \<Rightarrow> int \<times> 'st machine" where
  "run_op E (Hook_abs pid dest_func hook_func) m =
     (case taiHookFunctionAbs E pid dest_func hook_func m of ((ret, p_hook), m') \<Rightarrow> (ret, m'))"
| "run_op E (Hook_export pid md library_nid func_nid hook_func) m =
     (case taiHookFunctionExportForKernel E pid md library_nid func_nid hook_func m of
        ((ret, p_hook), m') \<Rightarrow> (ret, m'))"
| "run_op E (Hook_import pid md library_nid func_nid hook_func) m =
     (case taiHookFunctionImportForKernel E pid md library_nid func_nid hook_func m of
        ((ret, p_hook), m') \<Rightarrow> (ret, m'))"
| "run_op E (Hook_offset pid modid segidx offset thumb hook_func) m =
     (case taiHookFunctionOffsetForKernel E pid modid segidx offset thumb hook_func m of
        ((ret, p_hook), m') \<Rightarrow> (ret, m'))"
| "run_op E (Hook_release tai_uid hook) m = taiHookReleaseForKernel E tai_uid hook m"
| "run_op E (Inject_abs pid dest src sz) m = taiInjectAbsForKernel E pid dest src sz m"
| "run_op E (Inject_data pid modid segidx offset data sz) m =
     taiInjectDataForKernel E pid modid segidx offset data sz m"
| "run_op E (Inject_release tai_uid) m = taiInjectReleaseForKernel E tai_uid m"

fun run_ops :: "'st collab \<Rightarrow> patch_op list \<Rightarrow> 'st machine \<Rightarrow> int list \<times> 'st machine" where
  "run_ops E [] m = ([], m)"
| "run_ops E (c # cs) m =
     (case run_op E c m of
        (r, m1) \<Rightarrow> (case run_ops E cs m1 of (rs, m2) \<Rightarrow> (r # rs, m2)))"

text \<open>Releasing a list of hooks in the order given, through the entry point.\<close>
fun release_each ::
  "'st collab \<Rightarrow> (SceUID \<times> tai_hook_ref_t) list \<Rightarrow> 'st machine \<Rightarrow> int list \<times> 'st machine" where
  "release_each E [] m = ([], m)"
| "release_each E ((uid, hook) # rest) m =
     (case taiHookReleaseForKernel E uid hook m of
        (r, m1) \<Rightarrow> (case release_each E rest m1 of (rs, m2) \<Rightarrow> (r # rs, m2)))"

text \<open>The address holds hooks in the state \<open>m\<close> and after each of the calls.\<close>
fun stays_hooked :: "tai collab \<Rightarrow> SceUID \<Rightarrow> uintptr_t \<Rightarrow> patch_op list \<Rightarrow> tai machine \<Rightarrow> bool" where
  "stays_hooked E pid a [] m = (hooks_at (sys m) pid a \<noteq> [])"
| "stays_hooked E pid a (c # cs) m =
     (hooks_at (sys m) pid a \<noteq> [] \<and> stays_hooked E pid a cs (snd (run_op E c m)))"

text \<open>
  What one such call does to the state of the Patch Store: nothing, when the address
  could not be resolved, or what one of the four functions of \<^verbatim>\<open>patches.h\<close> does.
\<close>
inductive store_step :: "platform \<Rightarrow> tai \<Rightarrow> int \<Rightarrow> tai \<Rightarrow> bool" for P where
  Idle: "store_step P s ret s"
| Hooked: "patches_hook_func_abs P pid a f s = ((ret, ref), s') \<Longrightarrow> store_step P s ret s'"
| Injected: "patches_inject_abs P pid a src sz s = (ret, s') \<Longrightarrow> store_step P s ret s'"
| Released: "patches_release P h s = (ret, s') \<Longrightarrow> store_step P s ret s'"

text \<open>
  Every hook of a chain calls through to the hook function of the next entry, the last
  one to the original content.
\<close>
fun resolves :: "tai \<Rightarrow> byte list \<Rightarrow> (SceUID \<times> uintptr_t) list \<Rightarrow> bool" where
  "resolves s orig [] = True"
| "resolves s orig ((h, f) # rest) =
     (call_through s h =
        Some (case rest of [] \<Rightarrow> Original_content orig | (h', f') # _ \<Rightarrow> Next_hook f') \<and>
      resolves s orig rest)"

section \<open>Sample instances\<close>

text \<open>
  A sample set of external functions over a counter, a sample platform whose redirect
  holds the two low bytes of the hook function, and a sample state with four mapped
  bytes of process 1; the theorems are instantiated at them.
\<close>

definition demo_collab :: "nat collab" where
  "demo_collab =
     \<lparr>module_get_export_func =
        (\<lambda>pid md lib nid s. if md = ''SceDemo'' then (0, 0x81000000) else (- 1, 0)),
      module_get_import_func =
        (\<lambda>pid md lib nid s. if md = ''SceDemo'' then (0, 0x81000100) else (- 2, 0)),
      module_get_offset =
        (\<lambda>pid modid segidx offset s. if modid = 7 then (0, 0x81000000 + offset) else (- 3, 0)),
      tai_hook_func_abs = (\<lambda>pid dest hook s. ((int s, Some (int s)), Suc s)),
      tai_hook_release = (\<lambda>uid hook s. (0, s)),
      tai_inject_abs = (\<lambda>pid dest src sz s. (int s, Suc s)),
      tai_inject_release = (\<lambda>uid s. (0, s)),
      g_config = (\<lambda>s. if s = 0 then None else Some ''conf''),
      taihen_config_parse =
        (\<lambda>config titleid handler param s.
           fold (\<lambda>plugin. handler plugin param)
             (if titleid = ''ALL'' then [''a.skprx'', ''bc.skprx''] else []) s),
      hen_load_plugin = (\<lambda>plugin param s. s + length plugin),
      proc_map_init = (\<lambda>s. (0, s + 1)),
      patches_init = (\<lambda>s. (if s = 5 then - 1 else 0, s + 10)),
      hen_add_patches = (\<lambda>s. (0, s + 100)),
      hen_remove_patches = (\<lambda>s. (- 1, s + 1)),
      patches_deinit = (\<lambda>s. (0, s + 10)),
      proc_map_deinit = (\<lambda>s. (- 1, s + 100)),
      TAI_ERROR_SYSTEM = - 1,
      SCE_KERNEL_START_SUCCESS = 0,
      SCE_KERNEL_START_FAILED = 2,
      SCE_KERNEL_STOP_SUCCESS = 0\<rparr>"

definition idle_collab :: "tai collab" where
  "idle_collab =
     \<lparr>module_get_export_func = (\<lambda>pid md lib nid s. (- 1, 0)),
      module_get_import_func = (\<lambda>pid md lib nid s. (- 1, 0)),
      module_get_offset = (\<lambda>pid modid segidx offset s. (- 1, 0)),
      tai_hook_func_abs = (\<lambda>pid dest hook s. ((- 1, None), s)),
      tai_hook_release = (\<lambda>uid hook s. (- 1, s)),
      tai_inject_abs = (\<lambda>pid dest src sz s. (- 1, s)),
      tai_inject_release = (\<lambda>uid s. (- 1, s)),
      g_config = (\<lambda>s. None),
      taihen_config_parse = (\<lambda>config titleid handler param s. s),
      hen_load_plugin = (\<lambda>plugin param s. s),
      proc_map_init = (\<lambda>s. (0, s)),
      patches_init = (\<lambda>s. (0, s)),
      hen_add_patches = (\<lambda>s. (0, s)),
      hen_remove_patches = (\<lambda>s. (0, s)),
      patches_deinit = (\<lambda>s. (0, s)),
      proc_map_deinit = (\<lambda>s. (0, s)),
      TAI_ERROR_SYSTEM = - 1,
      SCE_KERNEL_START_SUCCESS = 0,
      SCE_KERNEL_START_FAILED = 2,
      SCE_KERNEL_STOP_SUCCESS = 0\<rparr>"

definition demo_platform :: platform where
  "demo_platform =
     \<lparr>is_restricted = (\<lambda>pid a. a = 0xE0000000),
      hook_redirect = (\<lambda>a f. [ucast (drop_bit 8 f), ucast f]),
      error_code = (\<lambda>e. case e of
          PatchExists \<Rightarrow> - 5 | ResolutionFailed \<Rightarrow> - 2 | RestrictedAddress \<Rightarrow> - 4
        | MutationFailed \<Rightarrow> - 6 | InvalidHandle \<Rightarrow> - 3 | SystemUnavailable \<Rightarrow> - 1)\<rparr>"

definition demo_tai :: tai where
  "demo_tai =
     \<lparr>memory = [(1, 0x1000) \<mapsto> 0x10, (1, 0x1001) \<mapsto> 0x11, (1, 0x1002) \<mapsto> 0x12,
                 (1, 0x1003) \<mapsto> 0x13],
      patch_store = [],
      next_handle = 1\<rparr>"

definition demo_env :: "tai collab" where
  "demo_env = with_patch_store demo_platform idle_collab"

definition demo_machine :: "tai machine" where
  "demo_machine = \<lparr>sys = demo_tai, calls = []\<rparr>"

text \<open>The sample machine after process 1 hooked address \<open>0x1000\<close>.\<close>
definition demo_hooked :: "tai machine" where
  "demo_hooked = snd (taiHookFunctionAbs demo_env 1 0x1000 0x2000 demo_machine)"

text \<open>
  Process 1 hooks \<open>0x1000\<close>, injects one byte at \<open>0x1002\<close> and hooks \<open>0x1000\<close> again: the
  chain at \<open>0x1000\<close> has an injection installed in between.
\<close>
definition demo_history :: "patch_op list" where
  "demo_history =
     [Hook_abs 1 0x1000 0x2000, Inject_abs 1 0x1002 (\<lambda>i. 0xFF) 1, Hook_abs 1 0x1000 0x3000]"

definition demo_chained :: "tai machine" where
  "demo_chained = snd (run_ops demo_env demo_history demo_machine)"

text \<open>The hook of \<open>demo_hooked\<close> released, and two patches installed after that.\<close>
definition demo_released :: "tai machine" where
  "demo_released = snd (taiHookReleaseForKernel demo_env 1 1 demo_hooked)"

definition demo_later :: "patch_op list" where
  "demo_later = [Inject_abs 1 0x1000 (\<lambda>i. 0xFF) 2, Hook_abs 1 0x1002 0x2000]"

definition demo_reinstalled :: "tai machine" where
  "demo_reinstalled = snd (run_ops demo_env demo_later demo_released)"

section \<open>Memory\<close>

lemma map_upds_map_apply:
  "(m(xs [\<mapsto>] map f xs)) x = (if x \<in> set xs then Some (f x) else m x)"
  by (induction xs arbitrary: m) auto

lemma map_upds_apply_cases:
  "length ys = length xs \<Longrightarrow>
     (m(xs [\<mapsto>] ys)) x = (if x \<in> set xs then map_of (rev (zip xs ys)) x else m x)"
proof -
  assume len: "length ys = length xs"
  have "dom (map_of (rev (zip xs ys))) = set xs"
    using len by (simp add: dom_map_of_conv_image_fst flip: set_map)
  then have "map_of (rev (zip xs ys)) x = None \<longleftrightarrow> x \<notin> set xs"
    by (metis domIff)
  then show ?thesis
    by (auto simp: map_upds_def map_add_def split: option.splits)
qed

lemma map_upds_overwrite:
  "length bs = length xs \<Longrightarrow> length cs = length xs \<Longrightarrow> m(xs [\<mapsto>] bs, xs [\<mapsto>] cs) = m(xs [\<mapsto>] cs)"
  by (rule ext) (simp add: map_upds_apply_cases)

lemma mapped_iff: "mapped mem pid a n \<longleftrightarrow> set (footprint pid a n) \<subseteq> dom mem"
  by (auto simp: mapped_def list_all_iff)

lemma footprint_mono: "k \<le> n \<Longrightarrow> set (footprint pid a k) \<subseteq> set (footprint pid a n)"
  by (auto simp: footprint_def)

lemma length_footprint [simp]: "length (footprint pid a n) = n"
  by (simp add: footprint_def)

lemma mapped_upds: "mapped mem pid a n \<Longrightarrow> mapped (mem(xs [\<mapsto>] ys)) pid a n"
  by (auto simp: mapped_iff)

lemma mem_read_length: "mem_read mem pid a n = Some bs \<Longrightarrow> length bs = n"
  by (auto simp: mem_read_def split: if_splits)

lemma mem_read_mapped: "mem_read mem pid a n = Some bs \<Longrightarrow> mapped mem pid a n"
  by (auto simp: mem_read_def split: if_splits)

lemma mapped_le: "mapped mem pid a n \<Longrightarrow> k \<le> n \<Longrightarrow> mapped mem pid a k"
  using footprint_mono[of k n pid a] by (auto simp: mapped_iff)

text \<open>Writing back what was read before an overwrite of the same range restores memory.\<close>
lemma mem_write_restore:
  assumes rd: "mem_read mem pid a n = Some old"
    and wr: "mem_write mem pid a bs = Some mem'"
    and len: "length bs \<le> n"
  shows "mem_write mem' pid a old = Some mem"
proof -
  let ?xs = "footprint pid a n"
  have mp: "mapped mem pid a n" using rd by (rule mem_read_mapped)
  have old: "old = map (\<lambda>x. the (mem x)) ?xs" using rd by (auto simp: mem_read_def split: if_splits)
  have mem': "mem' = mem(footprint pid a (length bs) [\<mapsto>] bs)"
    using wr by (auto simp: mem_write_def split: if_splits)
  have "mem'(?xs [\<mapsto>] old) = mem"
  proof (rule ext)
    fix x
    show "(mem'(?xs [\<mapsto>] old)) x = mem x"
    proof (cases "x \<in> set ?xs")
      case True
      then have "mem x \<noteq> None" using mp by (auto simp: mapped_iff)
      with True show ?thesis unfolding old by (auto simp: map_upds_map_apply)
    next
      case False
      then have "x \<notin> set (footprint pid a (length bs))" using footprint_mono[OF len] by blast
      with False show ?thesis unfolding old mem' by (simp add: map_upds_map_apply)
    qed
  qed
  moreover have "mapped mem' pid a (length old)"
    unfolding mem' using mp old by (simp add: mapped_upds)
  ultimately show ?thesis by (simp add: mem_write_def old)
qed

text \<open>
  The addresses of a range are distinct unless it wraps around the address space, and
  then what was written to the range is what is read from it.
\<close>
lemma footprint_distinct:
  assumes "n \<le> 2 ^ 32"
  shows "distinct (footprint pid a n)"
proof -
  have "inj_on (\<lambda>i. (pid, a + (of_nat i :: 32 word))) {0..<n}"
  proof (rule inj_onI)
    fix i j assume i: "i \<in> {0..<n}" and j: "j \<in> {0..<n}"
      and eq: "(pid, a + (of_nat i :: 32 word)) = (pid, a + of_nat j)"
    have "(of_nat i :: 32 word) = of_nat j" using eq by simp
    then have "take_bit 32 i = take_bit 32 j" by (simp add: word_of_nat_eq_iff)
    moreover have "i < 2 ^ 32" "j < 2 ^ 32" using i j assms by auto
    ultimately show "i = j" by (simp add: take_bit_nat_eq_self)
  qed
  then show ?thesis by (simp add: footprint_def distinct_map)
qed

lemma upds_read_back:
  assumes d: "distinct xs" and len: "length ys = length xs"
  shows "map (\<lambda>x. the ((m(xs [\<mapsto>] ys)) x)) xs = ys"
proof (rule nth_equalityI)
  show "length (map (\<lambda>x. the ((m(xs [\<mapsto>] ys)) x)) xs) = length ys" using len by simp
next
  fix i assume "i < length (map (\<lambda>x. the ((m(xs [\<mapsto>] ys)) x)) xs)"
  then have i: "i < length xs" by simp
  have "distinct (map fst (rev (zip xs ys)))" using d len by (simp add: rev_map[symmetric])
  moreover have "(xs ! i, ys ! i) \<in> set (rev (zip xs ys))"
    using i len by (auto simp: set_zip)
  ultimately have "map_of (rev (zip xs ys)) (xs ! i) = Some (ys ! i)" by simp
  then have "(m(xs [\<mapsto>] ys)) (xs ! i) = Some (ys ! i)"
    using i len by (simp add: map_upds_apply_cases)
  then show "map (\<lambda>x. the ((m(xs [\<mapsto>] ys)) x)) xs ! i = ys ! i" using i by simp
qed

lemma mem_read_written:
  assumes "mapped mem pid a (length bs)" "length bs \<le> 2 ^ 32"
  shows "mem_read (mem(footprint pid a (length bs) [\<mapsto>] bs)) pid a (length bs) = Some bs"
  using assms upds_read_back[OF footprint_distinct[OF assms(2)], of bs pid a mem]
  by (simp add: mem_read_def mapped_upds)

section \<open>Hook chains\<close>

lemma chain_records_length: "chain_records pid a orig hfs rs \<Longrightarrow> length rs = length hfs"
  by (induction pid a orig hfs rs rule: chain_records.induct) auto

lemma chain_records_handles: "chain_records pid a orig hfs rs \<Longrightarrow> map handle rs = map fst hfs"
  by (induction pid a orig hfs rs rule: chain_records.induct) auto

subsection \<open>Unlinking inside a chain\<close>

text \<open>
  Removing the record of a hook and relinking the entry that pointed at it gives the
  records of the chain without that hook; records that do not point at it are untouched.
\<close>

lemma chain_records_Cons:
  "chain_records pid a orig ((h, f) # hfs) (r # rs) \<longleftrightarrow>
     handle r = h \<and> owner_pid r = pid \<and> target_address r = a \<and> kind r = Hook \<and>
     chain_entry r = Some \<lparr>chain_address = a, hook_function = f, next_ref = succ_ref orig hfs\<rparr> \<and>
     chain_records pid a orig hfs rs"
  by (simp add: succ_ref_def)

lemma chain_records_find:
  "chain_records pid a orig hfs rs \<Longrightarrow> (h, f) \<in> set hfs \<Longrightarrow> distinct (map fst hfs) \<Longrightarrow>
   \<exists>r. find (\<lambda>r. handle r = h) rs = Some r \<and> handle r = h \<and> owner_pid r = pid \<and>
       target_address r = a \<and> kind r = Hook \<and>
       chain_entry r = Some \<lparr>chain_address = a, hook_function = f,
                             next_ref = succ_ref orig (after h hfs)\<rparr>"
proof (induction pid a orig hfs rs rule: chain_records.induct)
  case (2 pid a orig h' f' hfs r rs)
  show ?case
  proof (cases "h' = h")
    case True
    then have "f' = f" using "2.prems" by (force simp: image_iff)
    with True "2.prems"(1) show ?thesis by (simp add: after_def succ_ref_def)
  next
    case False
    then have "(h, f) \<in> set hfs" using "2.prems" by auto
    moreover have "chain_records pid a orig hfs rs" "distinct (map fst hfs)"
      using "2.prems" by auto
    ultimately obtain r' where "find (\<lambda>r. handle r = h) rs = Some r' \<and> handle r' = h \<and>
        owner_pid r' = pid \<and> target_address r' = a \<and> kind r' = Hook \<and>
        chain_entry r' = Some \<lparr>chain_address = a, hook_function = f,
                             next_ref = succ_ref orig (after h hfs)\<rparr>"
      using "2.IH" by blast
    moreover have "handle r = h'" using "2.prems"(1) by simp
    ultimately show ?thesis using False by (auto simp: after_def)
  qed
qed auto

lemma relink_unrelated:
  "chain_records pid a orig hfs rs \<Longrightarrow> h \<notin> fst ` set hfs \<Longrightarrow>
   map (relink h nr) (remove_record h rs) = rs"
proof (induction pid a orig hfs rs rule: chain_records.induct)
  case (2 pid a orig h' f' hfs r rs)
  then have IH: "map (relink h nr) (remove_record h rs) = rs"
    by (auto simp: remove_record_def)
  have "handle r \<noteq> h" using "2.prems" by auto
  moreover have "relink h nr r = r"
    using "2.prems" by (cases hfs) (auto simp: relink_def)
  ultimately show ?case using IH by (simp add: remove_record_def)
qed (auto simp: remove_record_def)

lemma relink_chain:
  "chain_records pid a orig hfs rs \<Longrightarrow> distinct (map fst hfs) \<Longrightarrow> h \<in> fst ` set hfs \<Longrightarrow>
   chain_records pid a orig (filter (\<lambda>x. fst x \<noteq> h) hfs)
     (map (relink h (succ_ref orig (after h hfs))) (remove_record h rs))"
proof (induction pid a orig hfs rs rule: chain_records.induct)
  case (2 pid a orig h' f' hfs r rs)
  have cr: "chain_records pid a orig hfs rs" and hr: "handle r = h'"
    and dist: "distinct (map fst hfs)" and notin: "h' \<notin> fst ` set hfs"
    using "2.prems" by auto
  show ?case
  proof (cases "h' = h")
    case True
    have "filter (\<lambda>x. fst x \<noteq> h) hfs = hfs" using notin True by (auto simp: filter_id_conv)
    moreover have "map (relink h (succ_ref orig (after h ((h', f') # hfs)))) (remove_record h rs) = rs"
      using cr notin True by (simp add: relink_unrelated)
    ultimately show ?thesis using True hr cr by (simp add: remove_record_def)
  next
    case False
    then have hin: "h \<in> fst ` set hfs" using "2.prems" by auto
    have aft: "after h ((h', f') # hfs) = after h hfs" using False by (simp add: after_def)
    have IH: "chain_records pid a orig (filter (\<lambda>x. fst x \<noteq> h) hfs)
       (map (relink h (succ_ref orig (after h hfs))) (remove_record h rs))"
      using "2.IH" cr dist hin by simp
    have ce: "chain_entry r = Some \<lparr>chain_address = a, hook_function = f', next_ref = succ_ref orig hfs\<rparr>"
      using "2.prems"(1) by (simp add: succ_ref_def)
    obtain h1 f1 hfs1 where hfs: "hfs = (h1, f1) # hfs1" using hin by (cases hfs) auto
    have "chain_entry (relink h (succ_ref orig (after h hfs)) r) =
            Some \<lparr>chain_address = a, hook_function = f',
                  next_ref = succ_ref orig (filter (\<lambda>x. fst x \<noteq> h) hfs)\<rparr>"
    proof (cases "h1 = h")
      case True
      have "h \<notin> fst ` set hfs1" using dist hfs True by auto
      then have "filter (\<lambda>x. fst x \<noteq> h) hfs1 = hfs1" by (auto simp: filter_id_conv)
      then show ?thesis using True ce hfs by (simp add: relink_def succ_ref_def after_def)
    next
      case False
      then show ?thesis using ce hfs by (simp add: relink_def succ_ref_def)
    qed
    moreover have "handle (relink h nr r) = h'" "owner_pid (relink h nr r) = pid"
      "target_address (relink h nr r) = a" "kind (relink h nr r) = Hook" for nr
      using "2.prems"(1) by (auto simp: relink_def split: option.splits)
    ultimately show ?thesis
      using False hr IH aft
      by (simp add: remove_record_def chain_records_Cons del: chain_records.simps)
  qed
qed auto

lemma after_split:
  "distinct (map fst (pre @ (h, f) # rest)) \<Longrightarrow> after h (pre @ (h, f) # rest) = rest"
proof -
  assume d: "distinct (map fst (pre @ (h, f) # rest))"
  then have "\<And>x. x \<in> set pre \<Longrightarrow> fst x \<noteq> h" by force
  then have "dropWhile (\<lambda>x. fst x \<noteq> h) (pre @ (h, f) # rest) = (h, f) # rest"
    by simp
  then show ?thesis by (simp add: after_def)
qed

subsection \<open>The entry points over the Patch Store\<close>

lemma hook_abs_sys:
  "taiHookFunctionAbs (with_patch_store P E) pid a f m =
     (fst (patches_hook_func_abs P pid a f (sys m)),
      \<lparr>sys = snd (patches_hook_func_abs P pid a f (sys m)),
       calls = calls m @ [Call_tai_hook_func_abs pid a f]\<rparr>)"
  by (simp add: taiHookFunctionAbs_def with_patch_store_def invoke_def split: prod.splits)

lemma hook_release_sys:
  "taiHookReleaseForKernel (with_patch_store P E) uid hook m =
     (fst (patches_release P uid (sys m)),
      \<lparr>sys = snd (patches_release P uid (sys m)),
       calls = calls m @ [Call_tai_hook_release uid hook]\<rparr>)"
  by (simp add: taiHookReleaseForKernel_def with_patch_store_def invoke_def split: prod.splits)

lemma inject_abs_sys:
  "taiInjectAbsForKernel (with_patch_store P E) pid a src sz m =
     (fst (patches_inject_abs P pid a src sz (sys m)),
      \<lparr>sys = snd (patches_inject_abs P pid a src sz (sys m)),
       calls = calls m @ [Call_tai_inject_abs pid a sz]\<rparr>)"
  by (simp add: taiInjectAbsForKernel_def with_patch_store_def invoke_def split: prod.splits)

lemma inject_release_sys:
  "taiInjectReleaseForKernel (with_patch_store P E) uid m =
     (fst (patches_release P uid (sys m)),
      \<lparr>sys = snd (patches_release P uid (sys m)),
       calls = calls m @ [Call_tai_inject_release uid]\<rparr>)"
  by (simp add: taiInjectReleaseForKernel_def with_patch_store_def invoke_def split: prod.splits)


subsection \<open>Auxiliary facts about the table\<close>

lemma find_filter_None: "find Q xs = None \<Longrightarrow> find Q (filter R xs) = None"
  by (auto simp: find_None_iff)

lemma patch_at_SomeD:
  "patch_at s pid a = Some r \<Longrightarrow> r \<in> set (patch_store s) \<and> owner_pid r = pid \<and> target_address r = a"
  by (auto simp: patch_at_def find_Some_iff)

lemma find_handle_distinct:
  "distinct (map handle rs) \<Longrightarrow> r \<in> set rs \<Longrightarrow> find (\<lambda>x. handle x = handle r) rs = Some r"
  by (induction rs) (auto simp: image_iff)

lemma handle_relink [simp]: "handle (relink h nr r) = handle r"
  by (simp add: relink_def split: option.splits)

lemma find_relink_removed:
  "find (\<lambda>r. handle r = h) (map (relink h nr) (remove_record h rs)) = None"
  by (auto simp: find_None_iff remove_record_def)

lemma find_removed: "find (\<lambda>r. handle r = h) (remove_record h rs) = None"
  by (auto simp: find_None_iff remove_record_def)

lemma release_Inr_gone:
  assumes "release P h s = (Inr u, s')"
  shows "find_handle s' h = None"
proof (cases "find_handle s h")
  case None
  then show ?thesis using assms by (simp add: release_def)
next
  case (Some r)
  then have "handle r = h" by (auto simp: find_handle_def find_Some_iff)
  then show ?thesis
    using assms Some
    by (auto simp: release_def restore_def find_handle_def find_relink_removed find_removed
        split: option.splits if_splits)
qed

lemma patches_release_gone:
  assumes "platform_ok P" "patches_release P h s = (0, s')"
  shows "find_handle s' h = None"
proof (cases "release P h s")
  case (Pair res s'')
  show ?thesis
  proof (cases res)
    case (Inl e)
    then have "error_code P e = 0" using assms(2) Pair by (simp add: patches_release_def)
    moreover have "error_code P e < 0" using assms(1) by (simp add: platform_ok_def)
    ultimately show ?thesis by simp
  next
    case (Inr u)
    then show ?thesis using assms(2) Pair release_Inr_gone[of P h s u s']
      by (simp add: patches_release_def)
  qed
qed

subsection \<open>The store stays well-formed\<close>

text \<open>
  The empty store is well-formed, and installs and releases keep a store well-formed, so
  \<open>store_ok\<close> holds of every store the operations build.
\<close>

lemma mapped_write:
  "mem_write mem pid a bs = Some mem' \<Longrightarrow> mapped mem p b n \<Longrightarrow> mapped mem' p b n"
  by (auto simp: mem_write_def mapped_upds split: if_splits)

lemma record_ok_mono:
  assumes "record_ok P s r" "next_handle s \<le> next_handle s'"
    "\<And>p b n. mapped (memory s) p b n \<Longrightarrow> mapped (memory s') p b n"
  shows "record_ok P s' r"
  using assms by (auto simp: record_ok_def split: option.splits next_ref.splits)

lemma store_ok_empty: "store_ok P \<lparr>memory = mem, patch_store = [], next_handle = 0\<rparr>"
  by (simp add: store_ok_def)

lemma store_ok_commit:
  assumes ok: "store_ok P s" and nr: "\<not> is_restricted P pid a"
    and link: "\<And>original. case link original of
        None \<Rightarrow> k = Injection
      | Some e \<Rightarrow> k = Hook \<and> chain_address e = a \<and>
          sz = length (hook_redirect P a (hook_function e)) \<and>
          (case next_ref e of Previous p \<Rightarrow> p < next_handle s | Original c \<Rightarrow> True)"
  shows "store_ok P (snd (commit P pid a sz k new_content link s))"
proof (cases "mem_read (memory s) pid a sz")
  case None
  then show ?thesis using ok by (simp add: commit_def)
next
  case (Some original)
  note rd = this
  show ?thesis
  proof (cases "mem_write (memory s) pid a (take sz new_content)")
    case None
    then show ?thesis using ok rd by (simp add: commit_def)
  next
    case (Some mem')
    let ?r = "\<lparr>handle = next_handle s, owner_pid = pid, target_address = a, kind = k,
               original_content = original, patch_size = sz, chain_entry = link original\<rparr>"
    let ?s' = "s\<lparr>memory := mem', patch_store := ?r # patch_store s,
                 next_handle := next_handle s + 1\<rparr>"
    have old: "\<forall>r \<in> set (patch_store s). record_ok P s r \<and> handle r < next_handle s"
      using ok by (auto simp: store_ok_def list_all_iff record_ok_def)
    have mono: "\<And>p b n. mapped (memory s) p b n \<Longrightarrow> mapped (memory ?s') p b n"
      using mapped_write[OF Some] by simp
    have "\<forall>r \<in> set (patch_store s). record_ok P ?s' r"
    proof
      fix r assume "r \<in> set (patch_store s)"
      then have "record_ok P s r" using old by blast
      then show "record_ok P ?s' r" by (rule record_ok_mono) (use mono in simp_all)
    qed
    moreover have "record_ok P ?s' ?r"
      using nr link[of original] mono[OF mem_read_mapped[OF rd]]
      by (auto simp: record_ok_def split: option.splits next_ref.splits)
    moreover have "next_handle s \<notin> handle ` set (patch_store s)" using old by force
    ultimately have "store_ok P ?s'"
      using ok by (auto simp: store_ok_def list_all_iff)
    then show ?thesis using rd Some by (simp add: commit_def)
  qed
qed

lemma store_ok_install_hook:
  assumes ok: "store_ok P s"
  shows "store_ok P (snd (install P pid a (length (hook_redirect P a f)) Hook
                            (hook_redirect P a f) f s))"
proof (cases "is_restricted P pid a")
  case True
  then show ?thesis using ok by (simp add: install_def)
next
  case False
  note nr = this
  show ?thesis
  proof (cases "patch_at s pid a")
    case None
    have "store_ok P (snd (commit P pid a (length (hook_redirect P a f)) Hook (hook_redirect P a f)
        (\<lambda>original. Some \<lparr>chain_address = a, hook_function = f,
           next_ref = Original original\<rparr>) s))"
      using ok nr by (rule store_ok_commit) simp
    then show ?thesis using nr None by (simp add: install_def)
  next
    case (Some t)
    then have "t \<in> set (patch_store s)" by (auto simp: patch_at_def find_Some_iff)
    then have ht: "handle t < next_handle s"
      using ok by (auto simp: store_ok_def list_all_iff record_ok_def)
    have "store_ok P (snd (commit P pid a (length (hook_redirect P a f)) Hook (hook_redirect P a f)
        (\<lambda>_. Some \<lparr>chain_address = a, hook_function = f,
           next_ref = Previous (handle t)\<rparr>) s))"
      using ok nr by (rule store_ok_commit) (simp add: ht)
    then show ?thesis using nr Some ok by (simp add: install_def)
  qed
qed

lemma store_ok_hook_func_abs:
  assumes ok: "store_ok P s"
  shows "store_ok P (snd (patches_hook_func_abs P pid a f s))"
  using store_ok_install_hook[OF ok, of pid a f]
  by (auto simp: patches_hook_func_abs_def split: prod.splits sum.splits)

lemma store_ok_install_injection:
  assumes ok: "store_ok P s"
  shows "store_ok P (snd (install P pid a sz Injection content hf s))"
proof (cases "is_restricted P pid a \<or> patch_at s pid a \<noteq> None")
  case True
  then show ?thesis using ok by (auto simp: install_def)
next
  case False
  have "store_ok P (snd (commit P pid a sz Injection content
      (\<lambda>original. case Injection of
         Hook \<Rightarrow> Some \<lparr>chain_address = a, hook_function = hf, next_ref = Original original\<rparr>
       | Injection \<Rightarrow> None) s))"
    using ok by (rule store_ok_commit) (use False in simp_all)
  then show ?thesis using False by (simp add: install_def)
qed

lemma store_ok_inject_abs:
  assumes ok: "store_ok P s"
  shows "store_ok P (snd (patches_inject_abs P pid a src sz s))"
  using store_ok_install_injection[OF ok, of pid a sz "map src [0..<sz]" 0]
  by (auto simp: patches_inject_abs_def split: prod.splits sum.splits)

lemma record_ok_relink:
  assumes "record_ok P s r" "case nr of Previous p \<Rightarrow> p < next_handle s | Original c \<Rightarrow> True"
  shows "record_ok P s (relink h nr r)"
  using assms by (auto simp: record_ok_def relink_def split: option.splits next_ref.splits)

lemma store_ok_restore:
  assumes ok: "store_ok P s"
  shows "store_ok P (snd (restore r content s))"
proof (cases "mem_write (memory s) (owner_pid r) (target_address r) content")
  case None
  then show ?thesis using ok by (simp add: restore_def)
next
  case (Some mem')
  let ?s' = "s\<lparr>memory := mem', patch_store := remove_record (handle r) (patch_store s)\<rparr>"
  have "\<forall>x \<in> set (patch_store s). record_ok P ?s' x"
  proof
    fix x assume "x \<in> set (patch_store s)"
    then have "record_ok P s x" using ok by (auto simp: store_ok_def list_all_iff)
    then show "record_ok P ?s' x"
      by (rule record_ok_mono) (simp_all add: mapped_write[OF Some])
  qed
  then have "store_ok P ?s'"
    using ok by (auto simp: store_ok_def list_all_iff remove_record_def distinct_map_filter)
  then show ?thesis using Some by (simp add: restore_def)
qed

lemma store_ok_release:
  assumes ok: "store_ok P s"
  shows "store_ok P (snd (release P h s))"
proof (cases "find_handle s h")
  case None
  then show ?thesis using ok by (simp add: release_def)
next
  case (Some r)
  then have rin: "r \<in> set (patch_store s)" by (auto simp: find_handle_def find_Some_iff)
  then have rok: "record_ok P s r" using ok by (auto simp: store_ok_def list_all_iff)
  show ?thesis
  proof (cases "chain_entry r")
    case None
    then show ?thesis using Some store_ok_restore[OF ok] by (simp add: release_def)
  next
    case (Some e)
    have nr: "case next_ref e of Previous p \<Rightarrow> p < next_handle s | Original c \<Rightarrow> True"
      using rok Some by (simp add: record_ok_def)
    let ?s' = "s\<lparr>patch_store := map (relink h (next_ref e)) (remove_record h (patch_store s))\<rparr>"
    have "\<forall>x \<in> set (patch_store s). record_ok P ?s' (relink h (next_ref e) x)"
    proof
      fix x assume "x \<in> set (patch_store s)"
      then have "record_ok P s x" using ok by (auto simp: store_ok_def list_all_iff)
      then have "record_ok P s (relink h (next_ref e) x)" using nr by (rule record_ok_relink)
      then show "record_ok P ?s' (relink h (next_ref e) x)"
        by (rule record_ok_mono) simp_all
    qed
    moreover have "map handle (map (relink h (next_ref e)) (remove_record h (patch_store s)))
        = map handle (remove_record h (patch_store s))"
      by (simp add: comp_def)
    ultimately have "store_ok P ?s'"
      using ok
      by (auto simp: store_ok_def list_all_iff remove_record_def distinct_map_filter
          simp del: map_map)
    then show ?thesis
      using Some \<open>find_handle s h = Some r\<close> store_ok_restore[OF ok] ok
      by (auto simp: release_def split: option.splits)
  qed
qed

lemma store_ok_patches_release:
  "store_ok P s \<Longrightarrow> store_ok P (snd (patches_release P h s))"
  using store_ok_release[of P s h]
  by (auto simp: patches_release_def split: prod.splits sum.splits)

section \<open>The patches at one address\<close>

subsection \<open>Sites and their chains\<close>

lemma find_as_filter: "find Q xs = (case filter Q xs of [] \<Rightarrow> None | x # _ \<Rightarrow> Some x)"
  by (induction xs) auto

lemma patch_at_site: "patch_at s pid a = (case site_records s pid a of [] \<Rightarrow> None | r # _ \<Rightarrow> Some r)"
  by (simp add: patch_at_def site_records_def find_as_filter)

lemma site_records_subset: "set (site_records s pid a) \<subseteq> set (patch_store s)"
  by (auto simp: site_records_def)

lemma site_records_at: "r \<in> set (site_records s pid a) \<Longrightarrow> owner_pid r = pid \<and> target_address r = a"
  by (auto simp: site_records_def)

lemma chain_records_hooks_of: "chain_records pid a orig hfs rs \<Longrightarrow> hooks_of rs = hfs"
  by (induction pid a orig hfs rs rule: chain_records.induct)
     (auto simp: hooks_of_def List.map_filter_simps)

lemma chain_records_original:
  "chain_records pid a orig hfs rs \<Longrightarrow> rs \<noteq> [] \<Longrightarrow> original_of rs = Some orig"
proof (induction pid a orig hfs rs rule: chain_records.induct)
  case (2 pid a orig h f hfs r rs)
  show ?case
  proof (cases rs)
    case Nil
    then have "hfs = []" using "2.prems" by (cases hfs) auto
    then show ?thesis using Nil "2.prems" by (simp add: original_of_def)
  next
    case (Cons r' rs')
    then have "original_of rs = Some orig" using 2 by simp
    then show ?thesis using Cons by (simp add: original_of_def)
  qed
qed auto

lemma chain_records_entries:
  "chain_records pid a orig hfs rs \<Longrightarrow> r \<in> set rs \<Longrightarrow> chain_entry r \<noteq> None"
  by (induction pid a orig hfs rs rule: chain_records.induct) auto

lemma links_okD:
  assumes "links_ok s"
  shows "site_ok (site_records s pid a)"
proof (cases "site_records s pid a")
  case Nil
  then show ?thesis by (simp add: site_ok_def)
next
  case (Cons r rest)
  then have "r \<in> set (site_records s pid a)" by simp
  then have "r \<in> set (patch_store s)" "owner_pid r = pid" "target_address r = a"
    using site_records_subset site_records_at by blast+
  then show ?thesis using assms by (auto simp: links_ok_def list_all_iff)
qed

lemma links_okI: "(\<And>pid a. site_ok (site_records s pid a)) \<Longrightarrow> links_ok s"
  by (simp add: links_ok_def list_all_iff)

text \<open>The chain at a site of a linked store.\<close>
lemma site_chain:
  assumes "links_ok s" and "site_records s pid a = r # rest" and "chain_entry r \<noteq> None"
  shows "\<exists>orig. chain_original s pid a = Some orig \<and> length orig = patch_size r \<and>
     chain_records pid a orig (hooks_at s pid a) (site_records s pid a)"
proof -
  have "r \<in> set (site_records s pid a)" using assms(2) by simp
  then have at: "owner_pid r = pid" "target_address r = a" using site_records_at by blast+
  have "site_ok (r # rest)" using links_okD[OF assms(1), of pid a] assms(2) by simp
  then show ?thesis using assms(2,3) at
    by (auto simp: site_ok_def chain_original_def hooks_at_def split: option.splits)
qed

lemma site_injection:
  assumes "links_ok s" and "r \<in> set (site_records s pid a)" and "chain_entry r = None"
  shows "site_records s pid a = [r] \<and> length (original_content r) = patch_size r"
proof (cases "site_records s pid a")
  case Nil
  then show ?thesis using assms(2) by simp
next
  case (Cons r0 rest)
  have ok: "site_ok (r0 # rest)" using links_okD[OF assms(1), of pid a] Cons by simp
  show ?thesis
  proof (cases "chain_entry r0")
    case None
    then show ?thesis using ok Cons assms(2) by (auto simp: site_ok_def)
  next
    case (Some e)
    then obtain orig where "chain_records (owner_pid r0) (target_address r0) orig
        (hooks_of (r0 # rest)) (r0 # rest)"
      using ok by (auto simp: site_ok_def split: option.splits)
    then have "chain_entry r \<noteq> None" using assms(2) Cons chain_records_entries by metis
    then show ?thesis using assms(3) by simp
  qed
qed

lemma links_ok_empty: "links_ok \<lparr>memory = mem, patch_store = [], next_handle = n\<rparr>"
  by (simp add: links_ok_def)

lemma relink_site [simp]:
  "owner_pid (relink h nr r) = owner_pid r" "target_address (relink h nr r) = target_address r"
  by (simp_all add: relink_def split: option.splits)

lemma site_filter_unlink:
  "filter (\<lambda>r. owner_pid r = pid \<and> target_address r = a) (map (relink h nr) (remove_record h rs))
   = map (relink h nr) (remove_record h (filter (\<lambda>r. owner_pid r = pid \<and> target_address r = a) rs))"
  by (induction rs) (auto simp: remove_record_def)

lemma site_filter_remove:
  "filter (\<lambda>r. owner_pid r = pid \<and> target_address r = a) (remove_record h rs)
   = remove_record h (filter (\<lambda>r. owner_pid r = pid \<and> target_address r = a) rs)"
  by (induction rs) (auto simp: remove_record_def)

lemma remove_record_absent: "h \<notin> handle ` set rs \<Longrightarrow> remove_record h rs = rs"
  by (auto simp: remove_record_def filter_id_conv)

lemma store_ok_distinct: "store_ok P s \<Longrightarrow> distinct (map handle (patch_store s))"
  by (simp add: store_ok_def)

lemma store_ok_record: "store_ok P s \<Longrightarrow> r \<in> set (patch_store s) \<Longrightarrow> record_ok P s r"
  by (simp add: store_ok_def list_all_iff)

lemma site_distinct: "store_ok P s \<Longrightarrow> distinct (map handle (site_records s pid a))"
  by (simp add: site_records_def store_ok_def distinct_map_filter)

text \<open>The handle of a record of another site does not occur at this site.\<close>
lemma other_site_handle:
  assumes ok: "store_ok P s" and r: "r \<in> set (patch_store s)"
    and other: "(owner_pid r, target_address r) \<noteq> (p, b)"
  shows "handle r \<notin> handle ` set (site_records s p b)"
proof
  assume "handle r \<in> handle ` set (site_records s p b)"
  then obtain r' where r': "r' \<in> set (site_records s p b)" "handle r' = handle r" by auto
  then have "r' \<in> set (patch_store s)" using site_records_subset by blast
  then have "r' = r" using r r'(2) store_ok_distinct[OF ok] by (meson distinct_map inj_onD)
  then show False using r'(1) other site_records_at by blast
qed

text \<open>Unlinking a handle of another site leaves the records of a linked site as they are.\<close>
lemma other_site_unchanged:
  assumes ok: "store_ok P s" and links: "links_ok s" and r: "r \<in> set (patch_store s)"
    and other: "(owner_pid r, target_address r) \<noteq> (p, b)"
  shows "map (relink (handle r) nr) (remove_record (handle r) (site_records s p b))
           = site_records s p b"
    and "remove_record (handle r) (site_records s p b) = site_records s p b"
proof -
  let ?h = "handle r"
  have notin: "?h \<notin> handle ` set (site_records s p b)"
    using ok r other by (rule other_site_handle)
  then show rem: "remove_record ?h (site_records s p b) = site_records s p b"
    by (rule remove_record_absent)
  show "map (relink ?h nr) (remove_record ?h (site_records s p b)) = site_records s p b"
  proof (cases "site_records s p b")
    case Nil
    then show ?thesis by (simp add: remove_record_def)
  next
    case (Cons r0 rest)
    show ?thesis
    proof (cases "chain_entry r0")
      case None
      have "r0 \<in> set (site_records s p b)" using Cons by simp
      then have "site_records s p b = [r0]" using site_injection[OF links _ None] by blast
      then show ?thesis using rem None by (simp add: relink_def)
    next
      case (Some e)
      then obtain orig where cr: "chain_records p b orig (hooks_at s p b) (site_records s p b)"
        using site_chain[OF links Cons] by auto
      have "?h \<notin> fst ` set (hooks_at s p b)"
        using notin chain_records_handles[OF cr] by (metis list.set_map)
      then show ?thesis using cr by (rule relink_unrelated[rotated])
    qed
  qed
qed

lemma site_ok_chain:
  assumes "chain_records pid a orig hfs rs" and "rs = r # rest" and "length orig = patch_size r"
    and "owner_pid r = pid" "target_address r = a"
  shows "site_ok rs"
proof -
  have "chain_entry r \<noteq> None" using chain_records_entries[OF assms(1)] assms(2) by simp
  moreover have "original_of rs = Some orig" using chain_records_original[OF assms(1)] assms(2) by simp
  moreover have "hooks_of rs = hfs" using assms(1) by (rule chain_records_hooks_of)
  ultimately show ?thesis using assms by (auto simp: site_ok_def)
qed

lemma chain_sizes:
  assumes P: "platform_ok P" and ok: "store_ok P s"
    and r: "r \<in> set (site_records s pid a)" "chain_entry r \<noteq> None"
  shows "patch_size r = length (hook_redirect P a g)" and "mapped (memory s) pid a (patch_size r)"
proof -
  have at: "owner_pid r = pid" "target_address r = a" using r(1) site_records_at by blast+
  have rok: "record_ok P s r" using ok r(1) site_records_subset store_ok_record by blast
  then show "mapped (memory s) pid a (patch_size r)" using at by (simp add: record_ok_def)
  obtain e where "chain_entry r = Some e" using r(2) by auto
  then have "patch_size r = length (hook_redirect P a (hook_function e))"
    using rok at by (simp add: record_ok_def)
  then show "patch_size r = length (hook_redirect P a g)" using P by (simp add: platform_ok_def)
qed

subsection \<open>Releasing in a well-formed store\<close>

text \<open>
  Releasing a hook of the chain at a site of a well-formed store: the release succeeds,
  the chain loses that hook and keeps its original, memory changes only when the hook
  was the topmost one, and the records of every other site stay as they are.
\<close>
lemma release_hook_site:
  assumes P: "platform_ok P" and ok: "store_ok P s" and links: "links_ok s"
    and hin: "(h, f) \<in> set (hooks_at s pid a)"
    and orig: "chain_original s pid a = Some orig"
  shows "\<exists>s'. release P h s = (Inr (), s') \<and>
     chain_records pid a orig (filter (\<lambda>x. fst x \<noteq> h) (hooks_at s pid a)) (site_records s' pid a) \<and>
     memory s' = (if h = fst (hd (hooks_at s pid a))
                  then (memory s)(footprint pid a (length orig) [\<mapsto>]
                         chain_content P a orig (tl (hooks_at s pid a)))
                  else memory s) \<and>
     next_handle s' = next_handle s \<and>
     (\<forall>p b. (p, b) \<noteq> (pid, a) \<longrightarrow> site_records s' p b = site_records s p b) \<and>
     links_ok s'"
proof -
  let ?hfs = "hooks_at s pid a"
  let ?rs = "site_records s pid a"
  let ?n = "length orig"
  have ne: "?hfs \<noteq> []" using hin by auto
  then obtain r0 rest where rs: "?rs = r0 # rest"
    by (cases ?rs) (auto simp: hooks_at_def hooks_of_def List.map_filter_simps)
  have r0e: "chain_entry r0 \<noteq> None"
  proof
    assume "chain_entry r0 = None"
    moreover have "r0 \<in> set ?rs" using rs by simp
    ultimately have "?rs = [r0]" using site_injection[OF links] by blast
    then show False using ne \<open>chain_entry r0 = None\<close>
      by (simp add: hooks_at_def hooks_of_def List.map_filter_simps)
  qed
  obtain orig' where o': "chain_original s pid a = Some orig'" "length orig' = patch_size r0"
    and cr': "chain_records pid a orig' ?hfs ?rs"
    using site_chain[OF links rs r0e] by blast
  have oeq: "orig' = orig" using o'(1) orig by simp
  have cr: "chain_records pid a orig ?hfs ?rs" using cr' oeq by simp
  have entries: "\<And>r. r \<in> set ?rs \<Longrightarrow> chain_entry r \<noteq> None"
    using chain_records_entries[OF cr] by blast
  have len: "\<And>g. length (hook_redirect P a g) = ?n"
    using chain_sizes(1)[OF P ok _ r0e, where pid = pid and a = a] rs o'(2) oeq by simp
  have mp: "mapped (memory s) pid a ?n"
    using chain_sizes(2)[OF P ok _ r0e, where pid = pid and a = a] rs o'(2) oeq by simp
  have dist: "distinct (map fst ?hfs)"
    using site_distinct[OF ok, of pid a] chain_records_handles[OF cr] by simp
  obtain r where fr: "find (\<lambda>r. handle r = h) ?rs = Some r" and r: "handle r = h" "owner_pid r = pid"
    "target_address r = a"
    "chain_entry r = Some \<lparr>chain_address = a, hook_function = f,
                           next_ref = succ_ref orig (after h ?hfs)\<rparr>"
    using chain_records_find[OF cr hin dist] by blast
  have rin: "r \<in> set ?rs" using fr by (auto simp: find_Some_iff in_set_conv_nth)
  then have rin': "r \<in> set (patch_store s)" using site_records_subset by blast
  have fh: "find_handle s h = Some r"
    using find_handle_distinct[OF store_ok_distinct[OF ok] rin'] r(1) by (simp add: find_handle_def)
  obtain h1 f1 hfs1 where hfs: "?hfs = (h1, f1) # hfs1" using ne by (cases ?hfs) auto
  have r0: "handle r0 = h1" and cr1: "chain_records pid a orig hfs1 rest"
    using cr hfs rs by auto
  have pa: "patch_at s pid a = Some r0" using rs by (simp add: patch_at_site)
  let ?hfs' = "filter (\<lambda>x. fst x \<noteq> h) ?hfs"
  have others: "\<forall>p b. (p, b) \<noteq> (pid, a) \<longrightarrow>
      map (relink h nr) (remove_record h (site_records s p b)) = site_records s p b \<and>
      remove_record h (site_records s p b) = site_records s p b" for nr
    using other_site_unchanged(1)[OF ok links rin', where nr = nr]
      other_site_unchanged(2)[OF ok links rin'] r by auto
  have site_new: "site_ok (site_records s' pid a)"
    if "chain_records pid a orig ?hfs' (site_records s' pid a)"
      and "set (site_records s' pid a) \<subseteq> relink h nr ` set ?rs \<union> set ?rs" for s' nr
  proof (cases "site_records s' pid a")
    case Nil
    then show ?thesis by (simp add: site_ok_def)
  next
    case (Cons x xs)
    then have "x \<in> relink h nr ` set ?rs \<union> set ?rs" using that(2) by auto
    then obtain y where y: "y \<in> set ?rs" "x = relink h nr y \<or> x = y" by auto
    then have "patch_size x = patch_size y" "owner_pid x = pid" "target_address x = a"
      using site_records_at[OF y(1)] by (auto simp: relink_def split: option.splits)
    moreover have "patch_size y = ?n"
      using chain_sizes(1)[OF P ok y(1) entries[OF y(1)]] len by simp
    ultimately show ?thesis using site_ok_chain[OF that(1) Cons] by simp
  qed
  have linksI: "links_ok s'"
    if "site_ok (site_records s' pid a)"
      and "\<forall>p b. (p, b) \<noteq> (pid, a) \<longrightarrow> site_records s' p b = site_records s p b" for s'
  proof (rule links_okI)
    fix p b
    show "site_ok (site_records s' p b)"
      using that links_okD[OF links, of p b] by (cases "(p, b) = (pid, a)") auto
  qed
  show ?thesis
  proof (cases "h1 = h")
    case True
    have notin: "h \<notin> fst ` set hfs1" using dist hfs True by auto
    then have hfs': "?hfs' = hfs1" using hfs True by (auto simp: filter_id_conv)
    have rr: "r = r0" using fr rs r0 True by simp
    have aft: "after h ?hfs = hfs1" using hfs True by (simp add: after_def)
    have content: "active_content P s (succ_ref orig hfs1) = Some (chain_content P a orig hfs1)"
    proof (cases hfs1)
      case Nil
      then show ?thesis by (simp add: active_content_def succ_ref_def chain_content_def)
    next
      case (Cons hf2 hfs2)
      obtain h2 f2 where hf2: "hf2 = (h2, f2)" by (cases hf2)
      have in2: "(h2, f2) \<in> set ?hfs" using hfs Cons hf2 by simp
      obtain r2 where r2: "find (\<lambda>r. handle r = h2) ?rs = Some r2" "handle r2 = h2"
        "chain_entry r2 = Some \<lparr>chain_address = a, hook_function = f2,
                           next_ref = succ_ref orig (after h2 ?hfs)\<rparr>"
        using chain_records_find[OF cr in2 dist] by blast
      have "r2 \<in> set (patch_store s)"
        using r2(1) site_records_subset by (fastforce simp: find_Some_iff in_set_conv_nth)
      then have "find_handle s h2 = Some r2"
        using find_handle_distinct[OF store_ok_distinct[OF ok]] r2(2)
        by (auto simp: find_handle_def)
      then show ?thesis using r2(3) Cons hf2
        by (simp add: active_content_def succ_ref_def chain_content_def)
    qed
    have clen: "length (chain_content P a orig hfs1) = ?n"
      by (auto simp: chain_content_def len split: list.splits)
    let ?s' = "s\<lparr>memory := (memory s)(footprint pid a ?n [\<mapsto>] chain_content P a orig hfs1),
                 patch_store := remove_record h (patch_store s)\<rparr>"
    have rel: "release P h s = (Inr (), ?s')"
      using fh r pa r0 True content clen mp aft
      by (simp add: release_def restore_def mem_write_def)
    have site': "site_records ?s' pid a = rest"
    proof -
      have "remove_record h rest = rest"
        using chain_records_handles[OF cr1] notin
        by (intro remove_record_absent) (metis list.set_map)
      then show ?thesis using rs r0 True
        by (simp add: site_records_def site_filter_remove) (simp add: remove_record_def)
    qed
    have oth: "\<forall>p b. (p, b) \<noteq> (pid, a) \<longrightarrow> site_records ?s' p b = site_records s p b"
    proof (intro allI impI)
      fix p b assume pb: "(p, b) \<noteq> (pid, a)"
      have "site_records ?s' p b = remove_record h (site_records s p b)"
        by (simp add: site_records_def site_filter_remove)
      also have "\<dots> = site_records s p b" using others[where nr = undefined] pb by blast
      finally show "site_records ?s' p b = site_records s p b" .
    qed
    have crn: "chain_records pid a orig ?hfs' (site_records ?s' pid a)"
      using cr1 hfs' site' by simp
    have "site_ok (site_records ?s' pid a)"
      by (rule site_new[OF crn, where nr = undefined]) (use site' rs in auto)
    then have "links_ok ?s'" using oth by (rule linksI)
    then show ?thesis using rel crn oth hfs True by auto
  next
    case False
    let ?nr = "succ_ref orig (after h ?hfs)"
    let ?s' = "s\<lparr>patch_store := map (relink h ?nr) (remove_record h (patch_store s))\<rparr>"
    have rel: "release P h s = (Inr (), ?s')"
      using fh r pa r0 False by (simp add: release_def)
    have hin': "h \<in> fst ` set ?hfs" using hin by force
    have site': "site_records ?s' pid a = map (relink h ?nr) (remove_record h ?rs)"
      by (simp add: site_records_def site_filter_unlink)
    have crn: "chain_records pid a orig ?hfs' (site_records ?s' pid a)"
      using relink_chain[OF cr dist hin'] site' by simp
    have oth: "\<forall>p b. (p, b) \<noteq> (pid, a) \<longrightarrow> site_records ?s' p b = site_records s p b"
    proof (intro allI impI)
      fix p b assume pb: "(p, b) \<noteq> (pid, a)"
      have "site_records ?s' p b = map (relink h ?nr) (remove_record h (site_records s p b))"
        by (simp add: site_records_def site_filter_unlink)
      also have "\<dots> = site_records s p b" using others[where nr = ?nr] pb by blast
      finally show "site_records ?s' p b = site_records s p b" .
    qed
    have "site_ok (site_records ?s' pid a)"
      by (rule site_new[OF crn, where nr = ?nr]) (unfold site', auto simp: remove_record_def)
    then have "links_ok ?s'" using oth by (rule linksI)
    then show ?thesis using rel crn oth hfs False by auto
  qed
qed

lemma find_handle_SomeD:
  "find_handle s h = Some r \<Longrightarrow> r \<in> set (patch_store s) \<and> handle r = h"
  by (auto simp: find_handle_def find_Some_iff)

lemma in_site: "r \<in> set (patch_store s) \<Longrightarrow> r \<in> set (site_records s (owner_pid r) (target_address r))"
  by (simp add: site_records_def)

text \<open>Releasing an injection of a well-formed store.\<close>
lemma release_injection_site:
  assumes ok: "store_ok P s" and links: "links_ok s"
    and fh: "find_handle s h = Some r" and inj: "chain_entry r = None"
  shows "\<exists>s'. release P h s = (Inr (), s') \<and>
     site_records s (owner_pid r) (target_address r) = [r] \<and>
     site_records s' (owner_pid r) (target_address r) = [] \<and>
     length (original_content r) = patch_size r \<and>
     memory s' = (memory s)(footprint (owner_pid r) (target_address r) (patch_size r) [\<mapsto>]
                    original_content r) \<and>
     next_handle s' = next_handle s \<and>
     (\<forall>p b. (p, b) \<noteq> (owner_pid r, target_address r) \<longrightarrow>
        site_records s' p b = site_records s p b) \<and>
     links_ok s'"
proof -
  let ?pid = "owner_pid r" and ?a = "target_address r"
  have rin: "r \<in> set (patch_store s)" and hr: "handle r = h"
    using find_handle_SomeD[OF fh] by auto
  have site: "site_records s ?pid ?a = [r]" and len: "length (original_content r) = patch_size r"
    using site_injection[OF links in_site[OF rin] inj] by auto
  have mp: "mapped (memory s) ?pid ?a (patch_size r)"
    using store_ok_record[OF ok rin] by (simp add: record_ok_def)
  let ?s' = "s\<lparr>memory := (memory s)(footprint ?pid ?a (patch_size r) [\<mapsto>] original_content r),
               patch_store := remove_record h (patch_store s)\<rparr>"
  have rel: "release P h s = (Inr (), ?s')"
    using fh inj mp len hr by (simp add: release_def restore_def mem_write_def)
  have site': "site_records ?s' ?pid ?a = []"
    using site hr by (simp add: site_records_def site_filter_remove) (simp add: remove_record_def)
  have oth: "\<forall>p b. (p, b) \<noteq> (?pid, ?a) \<longrightarrow> site_records ?s' p b = site_records s p b"
  proof (intro allI impI)
    fix p b assume pb: "(p, b) \<noteq> (?pid, ?a)"
    have "site_records ?s' p b = remove_record h (site_records s p b)"
      by (simp add: site_records_def site_filter_remove)
    also have "\<dots> = site_records s p b"
      using other_site_unchanged(2)[OF ok links rin, of p b] pb hr by auto
    finally show "site_records ?s' p b = site_records s p b" .
  qed
  have "links_ok ?s'"
  proof (rule links_okI)
    fix p b
    show "site_ok (site_records ?s' p b)"
    proof (cases "(p, b) = (?pid, ?a)")
      case True
      then show ?thesis using site' by (simp add: site_ok_def)
    next
      case False
      then show ?thesis using oth links_okD[OF links, of p b] by simp
    qed
  qed
  then show ?thesis using rel site site' len oth by auto
qed

lemma hooks_of_mem:
  "r \<in> set rs \<Longrightarrow> chain_entry r = Some e \<Longrightarrow> (handle r, hook_function e) \<in> set (hooks_of rs)"
  by (induction rs) (auto simp: hooks_of_def List.map_filter_simps split: option.splits)

text \<open>A hook record of a well-formed store belongs to the chain of its site.\<close>
lemma hook_record_site:
  assumes P: "platform_ok P" and ok: "store_ok P s"
    and links: "links_ok s" and rin: "r \<in> set (patch_store s)" and e: "chain_entry r = Some e"
  shows "\<exists>orig. (handle r, hook_function e) \<in> set (hooks_at s (owner_pid r) (target_address r)) \<and>
     chain_original s (owner_pid r) (target_address r) = Some orig \<and>
     length orig = patch_size r \<and>
     chain_records (owner_pid r) (target_address r) orig
       (hooks_at s (owner_pid r) (target_address r))
       (site_records s (owner_pid r) (target_address r))"
proof -
  let ?pid = "owner_pid r" and ?a = "target_address r"
  have rs: "r \<in> set (site_records s ?pid ?a)" using rin by (rule in_site)
  then obtain r0 rest where site: "site_records s ?pid ?a = r0 # rest"
    by (cases "site_records s ?pid ?a") auto
  have r0e: "chain_entry r0 \<noteq> None"
  proof
    assume n: "chain_entry r0 = None"
    have "r0 \<in> set (site_records s ?pid ?a)" using site by simp
    then have "site_records s ?pid ?a = [r0]" using site_injection[OF links _ n] by blast
    then show False using rs n e by simp
  qed
  obtain orig where o: "chain_original s ?pid ?a = Some orig" "length orig = patch_size r0"
    and cr: "chain_records ?pid ?a orig (hooks_at s ?pid ?a) (site_records s ?pid ?a)"
    using site_chain[OF links site r0e] by blast
  have "(handle r, hook_function e) \<in> set (hooks_at s ?pid ?a)"
    using hooks_of_mem[OF rs e] by (simp add: hooks_at_def)
  moreover have "patch_size r = patch_size r0"
  proof -
    have "r0 \<in> set (site_records s ?pid ?a)" using site by simp
    then have "patch_size r0 = length (hook_redirect P ?a 0)"
      using chain_sizes(1)[OF P ok _ r0e] by blast
    moreover have "patch_size r = length (hook_redirect P ?a 0)"
      using chain_sizes(1)[OF P ok rs] e by simp
    ultimately show ?thesis by simp
  qed
  ultimately show ?thesis using o cr by auto
qed

lemma handles_remove:
  "map handle (remove_record h rs) = filter (\<lambda>x. x \<noteq> h) (map handle rs)"
  by (simp add: remove_record_def filter_map comp_def)

lemma handles_unlink:
  "map handle (map (relink h nr) (remove_record h rs)) = filter (\<lambda>x. x \<noteq> h) (map handle rs)"
  by (simp add: remove_record_def filter_map comp_def)

lemma release_handles:
  "release P h s = (Inr u, s') \<Longrightarrow>
     map handle (patch_store s') = filter (\<lambda>x. x \<noteq> h) (map handle (patch_store s))"
  by (auto simp: release_def restore_def handles_remove handles_unlink
      dest!: find_handle_SomeD split: option.splits if_splits simp del: map_map)

lemma release_Inl_same: "release P h s = (Inl e, s') \<Longrightarrow> s' = s"
  by (auto simp: release_def restore_def split: option.splits if_splits)

lemma release_next_handle: "next_handle (snd (release P h s)) = next_handle s"
  by (auto simp: release_def restore_def split: option.splits if_splits)

lemma original_at_hooked:
  assumes "chain_records pid a orig hfs (site_records s pid a)" "site_records s pid a \<noteq> []"
  shows "original_at s pid a = Some orig"
proof -
  obtain r rest where site: "site_records s pid a = r # rest"
    using assms(2) by (cases "site_records s pid a") auto
  have "chain_entry r \<noteq> None" using chain_records_entries[OF assms(1)] site by simp
  moreover have "original_of (r # rest) = Some orig"
    using chain_records_original[OF assms(1)] site by simp
  ultimately show ?thesis using site by (auto simp: original_at_def)
qed

text \<open>
  What the release of an active handle of a well-formed store does: it succeeds, the
  store stays well-formed, only the record of the handle leaves the table, the records of
  the other sites and memory outside the footprint stay as they are, and the site is
  either left with its original unchanged or emptied, with the original back in memory.
\<close>
lemma release_summary:
  assumes P: "platform_ok P" and ok: "store_ok P s" and links: "links_ok s"
    and fh: "find_handle s h = Some r"
  shows "\<exists>s' oc. release P h s = (Inr (), s') \<and> store_ok P s' \<and> links_ok s' \<and>
     next_handle s' = next_handle s \<and>
     map handle (patch_store s') = filter (\<lambda>x. x \<noteq> h) (map handle (patch_store s)) \<and>
     (\<forall>p b. (p, b) \<noteq> (owner_pid r, target_address r) \<longrightarrow>
        site_records s' p b = site_records s p b) \<and>
     original_at s (owner_pid r) (target_address r) = Some oc \<and> length oc = patch_size r \<and>
     (\<forall>x. x \<notin> set (footprint (owner_pid r) (target_address r) (patch_size r)) \<longrightarrow>
        memory s' x = memory s x) \<and>
     (if site_records s' (owner_pid r) (target_address r) = []
      then memory s' = (memory s)(footprint (owner_pid r) (target_address r) (length oc) [\<mapsto>] oc)
      else original_at s' (owner_pid r) (target_address r) = Some oc \<and>
           hooks_at s (owner_pid r) (target_address r) \<noteq> [] \<and>
           hooks_at s' (owner_pid r) (target_address r) \<noteq> [] \<and>
           chain_original s' (owner_pid r) (target_address r)
             = chain_original s (owner_pid r) (target_address r))"
proof -
  let ?pid = "owner_pid r" and ?a = "target_address r"
  have rin: "r \<in> set (patch_store s)" and hr: "handle r = h"
    using find_handle_SomeD[OF fh] by auto
  have ok': "store_ok P (snd (release P h s))" using ok by (rule store_ok_release)
  show ?thesis
  proof (cases "chain_entry r")
    case None
    obtain s' where rel: "release P h s = (Inr (), s')"
      and site: "site_records s ?pid ?a = [r]"
      and site': "site_records s' ?pid ?a = []"
      and len: "length (original_content r) = patch_size r"
      and mem: "memory s' = (memory s)(footprint ?pid ?a (patch_size r) [\<mapsto>] original_content r)"
      and nh: "next_handle s' = next_handle s"
      and oth: "\<forall>p b. (p, b) \<noteq> (?pid, ?a) \<longrightarrow> site_records s' p b = site_records s p b"
      and l': "links_ok s'"
      using release_injection_site[OF ok links fh None] by blast
    have oa: "original_at s ?pid ?a = Some (original_content r)"
      using site None by (simp add: original_at_def)
    have "store_ok P s'" using ok' rel by simp
    moreover have "\<forall>x. x \<notin> set (footprint ?pid ?a (patch_size r)) \<longrightarrow> memory s' x = memory s x"
      using mem by simp
    ultimately show ?thesis
      using rel l' nh release_handles[OF rel] oth oa len site' mem by auto
  next
    case (Some e)
    obtain orig where hin: "(h, hook_function e) \<in> set (hooks_at s ?pid ?a)"
      and co: "chain_original s ?pid ?a = Some orig" and len: "length orig = patch_size r"
      and cr: "chain_records ?pid ?a orig (hooks_at s ?pid ?a) (site_records s ?pid ?a)"
      using hook_record_site[OF P ok links rin Some] hr by auto
    let ?hfs = "hooks_at s ?pid ?a"
    obtain s' where rel: "release P h s = (Inr (), s')"
      and cr': "chain_records ?pid ?a orig (filter (\<lambda>x. fst x \<noteq> h) ?hfs) (site_records s' ?pid ?a)"
      and mem: "memory s' = (if h = fst (hd ?hfs)
                  then (memory s)(footprint ?pid ?a (length orig) [\<mapsto>]
                         chain_content P ?a orig (tl ?hfs))
                  else memory s)"
      and nh: "next_handle s' = next_handle s"
      and oth: "\<forall>p b. (p, b) \<noteq> (?pid, ?a) \<longrightarrow> site_records s' p b = site_records s p b"
      and l': "links_ok s'"
      using release_hook_site[OF P ok links hin co] by blast
    have ne: "site_records s ?pid ?a \<noteq> []" using in_site[OF rin] by auto
    have oa: "original_at s ?pid ?a = Some orig" using cr ne by (rule original_at_hooked)
    have st: "store_ok P s'" using ok' rel by simp
    have out: "\<forall>x. x \<notin> set (footprint ?pid ?a (patch_size r)) \<longrightarrow> memory s' x = memory s x"
      using mem len by simp
    have hne: "?hfs \<noteq> []" using hin by auto
    have dist: "distinct (map fst ?hfs)"
      using site_distinct[OF ok, of ?pid ?a] chain_records_handles[OF cr] by simp
    have last: "if site_records s' ?pid ?a = []
      then memory s' = (memory s)(footprint ?pid ?a (length orig) [\<mapsto>] orig)
      else original_at s' ?pid ?a = Some orig \<and> ?hfs \<noteq> [] \<and> hooks_at s' ?pid ?a \<noteq> [] \<and>
           chain_original s' ?pid ?a = chain_original s ?pid ?a"
    proof (cases "site_records s' ?pid ?a = []")
      case True
      then have emp: "filter (\<lambda>x. fst x \<noteq> h) ?hfs = []"
        using chain_records_length[OF cr'] by simp
      obtain h1 f1 rest where hfs: "?hfs = (h1, f1) # rest" using hne by (cases ?hfs) auto
      have h1: "h1 = h" using emp hfs by (auto split: if_splits)
      have "rest = []"
      proof (cases rest)
        case (Cons x xs)
        then have "fst x = h" using emp hfs by (auto split: if_splits)
        then show ?thesis using dist hfs h1 Cons by auto
      qed simp
      then show ?thesis using True mem hfs h1 by (simp add: chain_content_def)
    next
      case False
      have "original_at s' ?pid ?a = Some orig" using cr' False by (rule original_at_hooked)
      moreover have "hooks_at s' ?pid ?a \<noteq> []"
        using chain_records_hooks_of[OF cr'] chain_records_length[OF cr'] False
        by (auto simp: hooks_at_def)
      moreover have "chain_original s' ?pid ?a = Some orig"
        using chain_records_original[OF cr' False] by (simp add: chain_original_def)
      ultimately show ?thesis using False hne co by simp
    qed
    show ?thesis
      using rel st l' nh release_handles[OF rel] oth oa len out last by auto
  qed
qed

subsection \<open>Installing in a well-formed store\<close>

lemma commit_cases:
  assumes "commit P pid a sz k c link s = (res, s')"
  shows "(\<exists>e. res = Inl e \<and> s' = s) \<or>
    (\<exists>original. mem_read (memory s) pid a sz = Some original \<and>
       mapped (memory s) pid a (length (take sz c)) \<and> res = Inr (next_handle s) \<and>
       s' = s\<lparr>memory := (memory s)(footprint pid a (length (take sz c)) [\<mapsto>] take sz c),
               patch_store :=
                 \<lparr>handle = next_handle s, owner_pid = pid, target_address = a, kind = k,
                  original_content = original, patch_size = sz,
                  chain_entry = link original\<rparr> # patch_store s,
               next_handle := next_handle s + 1\<rparr>)"
  using assms by (auto simp: commit_def mem_write_def split: option.splits if_splits)

lemma install_Inl_same: "install P pid a sz k c hf s = (Inl e, s') \<Longrightarrow> s' = s"
  by (auto simp: install_def dest!: commit_cases split: option.splits if_splits)

lemma site_records_Cons:
  "site_records (s\<lparr>memory := mem, patch_store := r # patch_store s, next_handle := n\<rparr>) p b =
     (if owner_pid r = p \<and> target_address r = b then r # site_records s p b
      else site_records s p b)"
  by (simp add: site_records_def)

lemma original_of_Cons: "rs \<noteq> [] \<Longrightarrow> original_of (r # rs) = original_of rs"
  by (cases rs) (simp_all add: original_of_def)

lemma hooks_of_Cons:
  "hooks_of (r # rs) =
     (case chain_entry r of None \<Rightarrow> hooks_of rs | Some e \<Rightarrow> (handle r, hook_function e) # hooks_of rs)"
  by (simp add: hooks_of_def List.map_filter_simps split: option.splits)

lemma hooks_of_Nil [simp]: "hooks_of [] = []"
  by (simp add: hooks_of_def List.map_filter_simps)

text \<open>What a hook install does to a well-formed store.\<close>
lemma hook_install_summary:
  assumes P: "platform_ok P" and ok: "store_ok P s" and links: "links_ok s"
    and inst: "patches_hook_func_abs P pid a f s = ((ret, ref), s')"
  shows "store_ok P s' \<and> links_ok s' \<and>
     (\<forall>p b. (p, b) \<noteq> (pid, a) \<longrightarrow> site_records s' p b = site_records s p b) \<and>
     (s' = s \<or>
      (ret = next_handle s \<and> ref = Some ret \<and> next_handle s' = next_handle s + 1 \<and>
       (\<exists>new. patch_store s' = new # patch_store s \<and> handle new = ret) \<and>
       hooks_at s' pid a = (ret, f) # hooks_at s pid a \<and>
       memory s' = (memory s)(footprint pid a (length (hook_redirect P a f)) [\<mapsto>]
                     hook_redirect P a f) \<and>
       chain_original s' pid a =
         (if site_records s pid a = []
          then mem_read (memory s) pid a (length (hook_redirect P a f))
          else chain_original s pid a) \<and>
       chain_original s' pid a \<noteq> None))"
proof -
  let ?n = "length (hook_redirect P a f)"
  let ?c = "hook_redirect P a f"
  have ok': "store_ok P s'"
    using store_ok_hook_func_abs[OF ok, of pid a f] inst by simp
  obtain res where i: "install P pid a ?n Hook ?c f s = (res, s')"
    and res: "(case res of Inl e \<Rightarrow> (error_code P e, None) | Inr uid \<Rightarrow> (uid, Some uid)) = (ret, ref)"
    using inst by (auto simp: patches_hook_func_abs_def split: prod.splits sum.splits)
  show ?thesis
  proof (cases res)
    case (Inl e)
    then have "s' = s" using i install_Inl_same by blast
    then show ?thesis using ok links by simp
  next
    case (Inr uid)
    note succ = this
    have nr: "\<not> is_restricted P pid a" using i succ by (auto simp: install_def split: if_splits)
    show ?thesis
    proof (cases "patch_at s pid a")
      case None
      then have site: "site_records s pid a = []"
        by (auto simp: patch_at_site split: list.splits)
      let ?link = "\<lambda>original. Some \<lparr>chain_address = a, hook_function = f,
                                      next_ref = Original original\<rparr>"
      have "commit P pid a ?n Hook ?c ?link s = (Inr uid, s')"
        using i succ nr None by (simp add: install_def)
      then obtain original where rd: "mem_read (memory s) pid a ?n = Some original"
        and uid: "uid = next_handle s"
        and s': "s' = s\<lparr>memory := (memory s)(footprint pid a ?n [\<mapsto>] ?c),
               patch_store :=
                 \<lparr>handle = next_handle s, owner_pid = pid, target_address = a, kind = Hook,
                  original_content = original, patch_size = ?n,
                  chain_entry = ?link original\<rparr> # patch_store s,
               next_handle := next_handle s + 1\<rparr>"
        by (auto dest!: commit_cases)
      let ?new = "\<lparr>handle = next_handle s, owner_pid = pid, target_address = a, kind = Hook,
                  original_content = original, patch_size = ?n,
                  chain_entry = ?link original\<rparr>"
      have sites: "site_records s' p b = (if (p, b) = (pid, a) then [?new] else site_records s p b)"
        for p b
        unfolding s' using site by (auto simp: site_records_Cons)
      have lo: "length original = ?n" using rd by (rule mem_read_length)
      have "links_ok s'"
      proof (rule links_okI)
        fix p b
        show "site_ok (site_records s' p b)"
        proof (cases "(p, b) = (pid, a)")
          case True
          then show ?thesis
            using lo by (simp add: sites site_ok_def original_of_def hooks_of_Cons)
        next
          case False
          then show ?thesis using links_okD[OF links, of p b] by (auto simp: sites)
        qed
      qed
      moreover have "hooks_at s' pid a = (next_handle s, f) # hooks_at s pid a"
        by (simp add: hooks_at_def sites site hooks_of_Cons)
      moreover have "chain_original s' pid a = Some original"
        by (simp add: chain_original_def sites original_of_def)
      ultimately show ?thesis
        using ok' res succ uid rd site sites by (auto simp: s')
    next
      case (Some t)
      then obtain rest where site: "site_records s pid a = t # rest"
        by (auto simp: patch_at_site split: list.splits)
      have kt: "kind t = Hook"
        using i succ nr Some by (cases "kind t") (auto simp: install_def split: if_splits)
      have tin: "t \<in> set (patch_store s)" using patch_at_SomeD[OF Some] by simp
      have te: "chain_entry t \<noteq> None"
        using store_ok_record[OF ok tin] kt by (auto simp: record_ok_def split: option.splits)
      obtain orig where co: "chain_original s pid a = Some orig" and lo: "length orig = patch_size t"
        and cr: "chain_records pid a orig (hooks_at s pid a) (site_records s pid a)"
        using site_chain[OF links site te] by blast
      have szt: "patch_size t = ?n"
        using chain_sizes(1)[OF P ok _ te, of pid a f] site by simp
      let ?link = "\<lambda>_::byte list. Some \<lparr>chain_address = a, hook_function = f,
                                      next_ref = Previous (handle t)\<rparr>"
      have "commit P pid a ?n Hook ?c ?link s = (Inr uid, s')"
        using i succ nr Some kt by (simp add: install_def)
      then obtain original where rd: "mem_read (memory s) pid a ?n = Some original"
        and uid: "uid = next_handle s"
        and s': "s' = s\<lparr>memory := (memory s)(footprint pid a ?n [\<mapsto>] ?c),
               patch_store :=
                 \<lparr>handle = next_handle s, owner_pid = pid, target_address = a, kind = Hook,
                  original_content = original, patch_size = ?n,
                  chain_entry = ?link original\<rparr> # patch_store s,
               next_handle := next_handle s + 1\<rparr>"
        by (auto dest!: commit_cases)
      let ?new = "\<lparr>handle = next_handle s, owner_pid = pid, target_address = a, kind = Hook,
                  original_content = original, patch_size = ?n,
                  chain_entry = ?link original\<rparr>"
      have sites: "site_records s' p b =
          (if (p, b) = (pid, a) then ?new # site_records s pid a else site_records s p b)"
        for p b
        unfolding s' by (auto simp: site_records_Cons)
      obtain f0 hfs0 where hfs: "hooks_at s pid a = (handle t, f0) # hfs0"
        using cr site by (cases "hooks_at s pid a") auto
      have hooks': "hooks_at s' pid a = (next_handle s, f) # hooks_at s pid a"
        by (simp add: hooks_at_def sites hooks_of_Cons)
      have cr': "chain_records pid a orig (hooks_at s' pid a) (site_records s' pid a)"
        using cr unfolding hooks' by (simp add: sites hfs)
      have o': "original_of (site_records s' pid a) = Some orig"
        using co site by (simp add: sites original_of_Cons chain_original_def)
      have "links_ok s'"
      proof (rule links_okI)
        fix p b
        show "site_ok (site_records s' p b)"
        proof (cases "(p, b) = (pid, a)")
          case True
          have "site_ok (site_records s' pid a)"
            by (rule site_ok_chain[OF cr', where r = ?new]) (simp_all add: sites lo szt)
          then show ?thesis using True by simp
        next
          case False
          then show ?thesis using links_okD[OF links, of p b] by (auto simp: sites)
        qed
      qed
      moreover have "chain_original s' pid a = Some orig"
        using o' by (simp add: chain_original_def)
      ultimately show ?thesis
        using ok' res succ uid site sites hooks' co by (auto simp: s')
    qed
  qed
qed

text \<open>What an injection install does to a well-formed store.\<close>
lemma inject_install_summary:
  assumes ok: "store_ok P s" and links: "links_ok s"
    and inst: "patches_inject_abs P pid a src sz s = (ret, s')"
  shows "store_ok P s' \<and> links_ok s' \<and>
     (\<forall>p b. (p, b) \<noteq> (pid, a) \<longrightarrow> site_records s' p b = site_records s p b) \<and>
     (s' = s \<or>
      (ret = next_handle s \<and> next_handle s' = next_handle s + 1 \<and>
       site_records s pid a = [] \<and>
       (\<exists>new. patch_store s' = new # patch_store s \<and> handle new = ret \<and>
          site_records s' pid a = [new] \<and> chain_entry new = None)))"
proof -
  let ?c = "map src [0..<sz]"
  have ok': "store_ok P s'"
    using store_ok_inject_abs[OF ok, of pid a src sz] inst by simp
  obtain res where i: "install P pid a sz Injection ?c 0 s = (res, s')"
    and res: "(case res of Inl e \<Rightarrow> error_code P e | Inr uid \<Rightarrow> uid) = ret"
    using inst by (auto simp: patches_inject_abs_def split: prod.splits sum.splits)
  show ?thesis
  proof (cases res)
    case (Inl e)
    then have "s' = s" using i install_Inl_same by blast
    then show ?thesis using ok links by simp
  next
    case (Inr uid)
    have nr: "\<not> is_restricted P pid a" and un: "patch_at s pid a = None"
      using i Inr by (auto simp: install_def split: if_splits option.splits)
    have site: "site_records s pid a = []"
      using un by (auto simp: patch_at_site split: list.splits)
    have "commit P pid a sz Injection ?c (\<lambda>original. None) s = (Inr uid, s')"
      using i Inr nr un by (simp add: install_def)
    then obtain original where rd: "mem_read (memory s) pid a sz = Some original"
      and uid: "uid = next_handle s"
      and s': "s' = s\<lparr>memory := (memory s)(footprint pid a (length (take sz ?c)) [\<mapsto>] take sz ?c),
               patch_store :=
                 \<lparr>handle = next_handle s, owner_pid = pid, target_address = a, kind = Injection,
                  original_content = original, patch_size = sz,
                  chain_entry = None\<rparr> # patch_store s,
               next_handle := next_handle s + 1\<rparr>"
      by (auto dest!: commit_cases)
    let ?new = "\<lparr>handle = next_handle s, owner_pid = pid, target_address = a, kind = Injection,
                  original_content = original, patch_size = sz, chain_entry = None\<rparr>"
    have sites: "site_records s' p b = (if (p, b) = (pid, a) then [?new] else site_records s p b)"
      for p b
      unfolding s' using site by (auto simp: site_records_Cons)
    have lo: "length original = sz" using rd by (rule mem_read_length)
    have "links_ok s'"
    proof (rule links_okI)
      fix p b
      show "site_ok (site_records s' p b)"
      proof (cases "(p, b) = (pid, a)")
        case True
        then show ?thesis using lo by (simp add: sites site_ok_def)
      next
        case False
        then show ?thesis using links_okD[OF links, of p b] by (auto simp: sites)
      qed
    qed
    then show ?thesis
      using ok' res Inr uid site sites by (auto simp: s')
  qed
qed

subsection \<open>Steps and histories\<close>

lemma hook_abs_step:
  assumes "taiHookFunctionAbs (with_patch_store P E) pid a f m = ((ret, ref), m')"
  shows "store_step P (sys m) ret (sys m')"
proof -
  have "patches_hook_func_abs P pid a f (sys m) = ((ret, ref), sys m')"
    using assms by (cases "patches_hook_func_abs P pid a f (sys m)") (auto simp: hook_abs_sys)
  then show ?thesis by (rule store_step.Hooked)
qed

lemma inject_abs_step:
  assumes "taiInjectAbsForKernel (with_patch_store P E) pid a src sz m = (ret, m')"
  shows "store_step P (sys m) ret (sys m')"
proof -
  have "patches_inject_abs P pid a src sz (sys m) = (ret, sys m')"
    using assms by (cases "patches_inject_abs P pid a src sz (sys m)") (auto simp: inject_abs_sys)
  then show ?thesis by (rule store_step.Injected)
qed

lemma run_op_step:
  assumes "run_op (with_patch_store P E) c m = (ret, m')"
  shows "store_step P (sys m) ret (sys m')"
proof (cases c)
  case (Hook_abs pid a f)
  then show ?thesis using assms by (auto split: prod.splits dest: hook_abs_step)
next
  case (Hook_export pid md lib nid f)
  then show ?thesis using assms
    by (auto simp: taiHookFunctionExportForKernel_def query_def invoke_def
        split: prod.splits if_splits dest!: hook_abs_step intro: store_step.Idle)
next
  case (Hook_import pid md lib nid f)
  then show ?thesis using assms
    by (auto simp: taiHookFunctionImportForKernel_def query_def invoke_def
        split: prod.splits if_splits dest!: hook_abs_step intro: store_step.Idle)
next
  case (Hook_offset pid modid segidx offset thumb f)
  then show ?thesis using assms
    by (auto simp: taiHookFunctionOffsetForKernel_def query_def invoke_def Let_def
        split: prod.splits if_splits dest!: hook_abs_step intro: store_step.Idle)
next
  case (Hook_release uid hook)
  then show ?thesis using assms
    by (auto simp: hook_release_sys intro!: store_step.Released)
next
  case (Inject_abs pid a src sz)
  then show ?thesis using assms
    by (auto dest: inject_abs_step)
next
  case (Inject_data pid modid segidx offset data sz)
  then show ?thesis using assms
    by (auto simp: taiInjectDataForKernel_def query_def invoke_def
        split: prod.splits if_splits dest!: inject_abs_step intro: store_step.Idle)
next
  case (Inject_release uid)
  then show ?thesis using assms
    by (auto simp: inject_release_sys intro!: store_step.Released)
qed

lemma patches_release_cases:
  assumes "patches_release P h s = (ret, s')"
  shows "(find_handle s h = None \<and> s' = s \<and> ret = error_code P InvalidHandle) \<or>
     (\<exists>r. find_handle s h = Some r \<and>
        ((\<exists>e. release P h s = (Inl e, s) \<and> s' = s \<and> ret = error_code P e) \<or>
         (release P h s = (Inr (), s') \<and> ret = 0)))"
proof (cases "find_handle s h")
  case None
  then show ?thesis using assms by (auto simp: patches_release_def release_def)
next
  case (Some r)
  obtain res s1 where rel: "release P h s = (res, s1)" by (cases "release P h s")
  show ?thesis
  proof (cases res)
    case (Inl e)
    then have "s1 = s" using rel release_Inl_same by blast
    then show ?thesis using assms rel Inl Some by (auto simp: patches_release_def)
  next
    case (Inr u)
    then show ?thesis using assms rel Some by (auto simp: patches_release_def TAI_SUCCESS_def)
  qed
qed

text \<open>Every step keeps a well-formed store well-formed.\<close>
lemma step_wf:
  assumes P: "platform_ok P" and step: "store_step P s ret s'"
    and ok: "store_ok P s" and links: "links_ok s"
  shows "store_ok P s' \<and> links_ok s'"
  using step
proof cases
  case Idle
  then show ?thesis using ok links by simp
next
  case (Hooked pid a f ref)
  then show ?thesis using hook_install_summary[OF P ok links] by blast
next
  case (Injected pid a src sz)
  then show ?thesis using inject_install_summary[OF ok links] by blast
next
  case (Released h)
  from patches_release_cases[OF this] show ?thesis
  proof (elim disjE exE conjE)
    fix r assume "find_handle s h = Some r" "release P h s = (Inr (), s')"
    then show ?thesis using release_summary[OF P ok links] by fastforce
  qed (use ok links in auto)
qed

lemma chain_original_cong:
  "site_records s' pid a = site_records s pid a \<Longrightarrow> chain_original s' pid a = chain_original s pid a"
  by (simp add: chain_original_def)

text \<open>While a site holds hooks, no step changes the original content of its chain.\<close>
lemma step_original:
  assumes P: "platform_ok P" and step: "store_step P s ret s'"
    and ok: "store_ok P s" and links: "links_ok s"
    and before: "hooks_at s pid a \<noteq> []" and after: "hooks_at s' pid a \<noteq> []"
  shows "chain_original s' pid a = chain_original s pid a"
  using step
proof cases
  case Idle
  then show ?thesis by simp
next
  case (Hooked p b f ref)
  have site: "site_records s pid a \<noteq> []" using before by (auto simp: hooks_at_def)
  show ?thesis
  proof (cases "(pid, a) = (p, b)")
    case True
    then show ?thesis using hook_install_summary[OF P ok links Hooked] site by auto
  next
    case False
    then have "site_records s' pid a = site_records s pid a"
      using hook_install_summary[OF P ok links Hooked] by blast
    then show ?thesis by (rule chain_original_cong)
  qed
next
  case (Injected p b src sz)
  have site: "site_records s pid a \<noteq> []" using before by (auto simp: hooks_at_def)
  show ?thesis
  proof (cases "(pid, a) = (p, b)")
    case True
    then show ?thesis using inject_install_summary[OF ok links Injected] site by auto
  next
    case False
    then have "site_records s' pid a = site_records s pid a"
      using inject_install_summary[OF ok links Injected] by blast
    then show ?thesis by (rule chain_original_cong)
  qed
next
  case (Released h)
  from patches_release_cases[OF this] show ?thesis
  proof (elim disjE exE conjE)
    fix r assume fh: "find_handle s h = Some r" and rel: "release P h s = (Inr (), s')"
    obtain oc where oth: "\<forall>p b. (p, b) \<noteq> (owner_pid r, target_address r) \<longrightarrow>
        site_records s' p b = site_records s p b"
      and site: "if site_records s' (owner_pid r) (target_address r) = []
        then memory s' = (memory s)(footprint (owner_pid r) (target_address r) (length oc) [\<mapsto>] oc)
        else original_at s' (owner_pid r) (target_address r) = Some oc \<and>
           hooks_at s (owner_pid r) (target_address r) \<noteq> [] \<and>
           hooks_at s' (owner_pid r) (target_address r) \<noteq> [] \<and>
           chain_original s' (owner_pid r) (target_address r)
             = chain_original s (owner_pid r) (target_address r)"
      using release_summary[OF P ok links fh] rel by auto
    show ?thesis
    proof (cases "(pid, a) = (owner_pid r, target_address r)")
      case True
      have "site_records s' pid a \<noteq> []" using after by (auto simp: hooks_at_def)
      then show ?thesis using site True by auto
    next
      case False
      then have "site_records s' pid a = site_records s pid a" using oth by blast
      then show ?thesis by (rule chain_original_cong)
    qed
  qed auto
qed

text \<open>The step that starts a chain at an unpatched site records what memory held there.\<close>
lemma step_start:
  assumes P: "platform_ok P" and step: "store_step P s ret s'"
    and ok: "store_ok P s" and links: "links_ok s"
    and before: "site_records s pid a = []" and after: "hooks_at s' pid a \<noteq> []"
  shows "chain_original s' pid a = mem_read (memory s) pid a (length (hook_redirect P a 0))"
  using step
proof cases
  case Idle
  then show ?thesis using before after by (simp add: hooks_at_def)
next
  case (Hooked p b f ref)
  have len: "length (hook_redirect P a f) = length (hook_redirect P a 0)"
    using P by (simp add: platform_ok_def)
  show ?thesis
  proof (cases "(pid, a) = (p, b)")
    case True
    then show ?thesis
      using hook_install_summary[OF P ok links Hooked] before after len
      by (auto simp: hooks_at_def)
  next
    case False
    then have "site_records s' pid a = site_records s pid a"
      using hook_install_summary[OF P ok links Hooked] by blast
    then show ?thesis using before after by (simp add: hooks_at_def)
  qed
next
  case (Injected p b src sz)
  show ?thesis
  proof (cases "(pid, a) = (p, b)")
    case True
    then show ?thesis
      using inject_install_summary[OF ok links Injected] before after
      by (auto simp: hooks_at_def hooks_of_Cons)
  next
    case False
    then have "site_records s' pid a = site_records s pid a"
      using inject_install_summary[OF ok links Injected] by blast
    then show ?thesis using before after by (simp add: hooks_at_def)
  qed
next
  case (Released h)
  from patches_release_cases[OF this] show ?thesis
  proof (elim disjE exE conjE)
    fix r assume fh: "find_handle s h = Some r" and rel: "release P h s = (Inr (), s')"
    have "r \<in> set (site_records s (owner_pid r) (target_address r))"
      using find_handle_SomeD[OF fh] in_site by blast
    then have "(pid, a) \<noteq> (owner_pid r, target_address r)" using before by auto
    then have "site_records s' pid a = site_records s pid a"
      using release_summary[OF P ok links fh] rel by auto
    then show ?thesis using before after by (simp add: hooks_at_def)
  qed (use before after in \<open>auto simp: hooks_at_def\<close>)
qed

lemma run_ops_snd_Cons:
  "snd (run_ops E (c # cs) m) = snd (run_ops E cs (snd (run_op E c m)))"
  by (simp split: prod.splits)

lemma run_ops_wf:
  assumes P: "platform_ok P"
  shows "store_ok P (sys m) \<Longrightarrow> links_ok (sys m) \<Longrightarrow>
     store_ok P (sys (snd (run_ops (with_patch_store P E) cs m))) \<and>
     links_ok (sys (snd (run_ops (with_patch_store P E) cs m)))"
proof (induction cs arbitrary: m)
  case Nil
  then show ?case by simp
next
  case (Cons c cs)
  obtain r m1 where c: "run_op (with_patch_store P E) c m = (r, m1)"
    by (cases "run_op (with_patch_store P E) c m")
  have "store_ok P (sys m1) \<and> links_ok (sys m1)"
    using step_wf[OF P run_op_step[OF c]] Cons.prems by simp
  then show ?case using Cons.IH[of m1] c by (simp add: run_ops_snd_Cons del: run_ops.simps)
qed

lemma run_ops_append:
  "run_ops E (cs @ ds) m =
     (case run_ops E cs m of (rs, m1) \<Rightarrow> (case run_ops E ds m1 of (rs', m2) \<Rightarrow> (rs @ rs', m2)))"
  by (induction cs arbitrary: m) (auto split: prod.splits)

lemma stays_hooked_original:
  assumes P: "platform_ok P"
  shows "store_ok P (sys m) \<Longrightarrow> links_ok (sys m) \<Longrightarrow>
     stays_hooked (with_patch_store P E) pid a cs m \<Longrightarrow>
     chain_original (sys (snd (run_ops (with_patch_store P E) cs m))) pid a
       = chain_original (sys m) pid a"
proof (induction cs arbitrary: m)
  case Nil
  then show ?case by simp
next
  case (Cons c cs)
  obtain r m1 where c: "run_op (with_patch_store P E) c m = (r, m1)"
    by (cases "run_op (with_patch_store P E) c m")
  have st: "store_step P (sys m) r (sys m1)" using c by (rule run_op_step)
  have wf: "store_ok P (sys m1)" "links_ok (sys m1)"
    using step_wf[OF P st] Cons.prems by simp_all
  have sh: "stays_hooked (with_patch_store P E) pid a cs m1" and h0: "hooks_at (sys m) pid a \<noteq> []"
    using Cons.prems(3) c by simp_all
  have h1: "hooks_at (sys m1) pid a \<noteq> []" using sh by (cases cs) simp_all
  have "chain_original (sys m1) pid a = chain_original (sys m) pid a"
    using step_original[OF P st Cons.prems(1,2) h0 h1] .
  then show ?case using Cons.IH[OF wf sh] c by (simp add: run_ops_snd_Cons del: run_ops.simps)
qed

lemma run_ops_snd_append:
  "snd (run_ops E (cs @ ds) m) = snd (run_ops E ds (snd (run_ops E cs m)))"
  by (simp add: run_ops_append split: prod.splits)

subsection \<open>Releasing the hooks of a chain\<close>

lemma site_find:
  assumes ok: "store_ok P s"
    and cr: "chain_records pid a orig hfs (site_records s pid a)" and hin: "(h, f) \<in> set hfs"
  shows "\<exists>r. find_handle s h = Some r \<and> owner_pid r = pid \<and> target_address r = a \<and>
     chain_entry r = Some \<lparr>chain_address = a, hook_function = f,
                           next_ref = succ_ref orig (after h hfs)\<rparr>"
proof -
  have dist: "distinct (map fst hfs)"
    using site_distinct[OF ok, of pid a] chain_records_handles[OF cr] by simp
  obtain r where fr: "find (\<lambda>r. handle r = h) (site_records s pid a) = Some r"
    and r: "handle r = h" "owner_pid r = pid" "target_address r = a"
    "chain_entry r = Some \<lparr>chain_address = a, hook_function = f,
                           next_ref = succ_ref orig (after h hfs)\<rparr>"
    using chain_records_find[OF cr hin dist] by blast
  have "r \<in> set (site_records s pid a)" using fr by (auto simp: find_Some_iff in_set_conv_nth)
  then have "r \<in> set (patch_store s)" using site_records_subset by blast
  then have "find_handle s h = Some r"
    using find_handle_distinct[OF store_ok_distinct[OF ok]] r(1) by (auto simp: find_handle_def)
  then show ?thesis using r by blast
qed

lemma site_resolves_suffix:
  assumes ok: "store_ok P s" and cr: "chain_records pid a orig hfs (site_records s pid a)"
  shows "hfs = pre @ t \<Longrightarrow> resolves s orig t"
proof (induction t arbitrary: pre)
  case Nil
  show ?case by simp
next
  case (Cons hf rest)
  obtain h f where hf: "hf = (h, f)" by (cases hf)
  have dist: "distinct (map fst hfs)"
    using site_distinct[OF ok, of pid a] chain_records_handles[OF cr] by simp
  have aft: "after h hfs = rest" using after_split[of pre h f rest] dist Cons.prems hf by simp
  obtain r where r: "find_handle s h = Some r"
    "chain_entry r = Some \<lparr>chain_address = a, hook_function = f, next_ref = succ_ref orig rest\<rparr>"
    using site_find[OF ok cr, of h f] Cons.prems hf aft by auto
  have "call_through s h =
      Some (case rest of [] \<Rightarrow> Original_content orig | (h', f') # _ \<Rightarrow> Next_hook f')"
  proof (cases rest)
    case Nil
    then show ?thesis using r by (simp add: call_through_def succ_ref_def)
  next
    case (Cons hf' rest')
    obtain h' f' where hf': "hf' = (h', f')" by (cases hf')
    have "(h', f') \<in> set hfs" using Cons.prems hf Cons hf' \<open>hfs = pre @ hf # rest\<close> by simp
    then obtain r' where "find_handle s h' = Some r'" "hook_function (the (chain_entry r')) = f'"
      "chain_entry r' \<noteq> None"
      using site_find[OF ok cr, of h' f'] by auto
    then show ?thesis using r Cons hf' by (auto simp: call_through_def succ_ref_def)
  qed
  moreover have "resolves s orig rest" using Cons.IH[of "pre @ [hf]"] Cons.prems by simp
  ultimately show ?case using hf by simp
qed

lemma site_resolves:
  "store_ok P s \<Longrightarrow> chain_records pid a orig hfs (site_records s pid a) \<Longrightarrow> resolves s orig hfs"
  using site_resolves_suffix[of P s pid a orig hfs "[]" hfs] by simp

lemma chain_content_length:
  "(\<And>g. length (hook_redirect P a g) = length orig) \<Longrightarrow> length (chain_content P a orig hfs) = length orig"
  by (auto simp: chain_content_def split: list.splits)

text \<open>
  Releasing hooks of one site of a well-formed store in any order: every release
  succeeds, the site keeps the remaining hooks linked in their order, memory changes
  only once the topmost hook has been released and then holds what the remaining chain
  makes active, and nothing else in the table changes.
\<close>
lemma release_each_site:
  assumes P: "platform_ok P"
  shows "store_ok P (sys m) \<Longrightarrow> links_ok (sys m) \<Longrightarrow>
     chain_records pid a orig hfs (site_records (sys m) pid a) \<Longrightarrow> length orig = n \<Longrightarrow>
     (\<And>g. length (hook_redirect P a g) = n) \<Longrightarrow>
     distinct (map fst order) \<Longrightarrow> set (map fst order) \<subseteq> set (map fst hfs) \<Longrightarrow>
     release_each (with_patch_store P E) order m = (rets, m2) \<Longrightarrow>
     rets = replicate (length order) 0 \<and> store_ok P (sys m2) \<and> links_ok (sys m2) \<and>
     chain_records pid a orig (filter (\<lambda>x. fst x \<notin> set (map fst order)) hfs)
       (site_records (sys m2) pid a) \<and>
     memory (sys m2) =
       (if hfs \<noteq> [] \<and> fst (hd hfs) \<in> set (map fst order)
        then (memory (sys m))(footprint pid a n [\<mapsto>]
               chain_content P a orig (filter (\<lambda>x. fst x \<notin> set (map fst order)) hfs))
        else memory (sys m)) \<and>
     next_handle (sys m2) = next_handle (sys m) \<and>
     map handle (patch_store (sys m2))
       = filter (\<lambda>x. x \<notin> set (map fst order)) (map handle (patch_store (sys m))) \<and>
     (\<forall>p b. (p, b) \<noteq> (pid, a) \<longrightarrow> site_records (sys m2) p b = site_records (sys m) p b)"
proof (induction order arbitrary: m hfs rets)
  case Nil
  then show ?case by (simp add: filter_id_conv)
next
  case (Cons uh order)
  obtain h hook where uh: "uh = (h, hook)" by (cases uh)
  note ok = Cons.prems(1) and links = Cons.prems(2) and cr = Cons.prems(3)
    and n = Cons.prems(4) and len = Cons.prems(5)
  let ?s = "sys m"
  obtain f where hin: "(h, f) \<in> set hfs" using Cons.prems(7) uh by auto
  have hooks: "hooks_at ?s pid a = hfs"
    using chain_records_hooks_of[OF cr] by (simp add: hooks_at_def)
  have ne: "site_records ?s pid a \<noteq> []" using cr hin by (cases hfs) auto
  have co: "chain_original ?s pid a = Some orig"
    using chain_records_original[OF cr ne] by (simp add: chain_original_def)
  have dist: "distinct (map fst hfs)"
    using site_distinct[OF ok, of pid a] chain_records_handles[OF cr] by simp
  let ?hfs1 = "filter (\<lambda>x. fst x \<noteq> h) hfs"
  obtain s' where rel: "release P h ?s = (Inr (), s')"
    and cr1: "chain_records pid a orig ?hfs1 (site_records s' pid a)"
    and mem1: "memory s' = (if h = fst (hd hfs)
                  then (memory ?s)(footprint pid a (length orig) [\<mapsto>]
                         chain_content P a orig (tl hfs))
                  else memory ?s)"
    and nh1: "next_handle s' = next_handle ?s"
    and oth1: "\<forall>p b. (p, b) \<noteq> (pid, a) \<longrightarrow> site_records s' p b = site_records ?s p b"
    and l1: "links_ok s'"
    using release_hook_site[OF P ok links, of h f pid a orig] hin co hooks by auto
  have ok1: "store_ok P s'" using store_ok_release[OF ok, of h] rel by simp
  have hs1: "map handle (patch_store s') = filter (\<lambda>x. x \<noteq> h) (map handle (patch_store ?s))"
    using rel by (rule release_handles)
  let ?m' = "\<lparr>sys = s', calls = calls m @ [Call_tai_hook_release h hook]\<rparr>"
  obtain rest where rest: "release_each (with_patch_store P E) order ?m' = (rest, m2)"
    and rets: "rets = 0 # rest"
    using Cons.prems(8) rel uh
    by (auto simp: hook_release_sys patches_release_def TAI_SUCCESS_def split: prod.splits)
  have sub: "set (map fst order) \<subseteq> set (map fst ?hfs1)"
  proof
    fix x assume x: "x \<in> set (map fst order)"
    then have "x \<noteq> h" using Cons.prems(6) uh by auto
    moreover have "x \<in> set (map fst hfs)" using x Cons.prems(7) by auto
    ultimately show "x \<in> set (map fst ?hfs1)" by force
  qed
  have d': "distinct (map fst order)" and hno: "h \<notin> set (map fst order)"
    using Cons.prems(6) uh by auto
  have IH: "rest = replicate (length order) 0 \<and> store_ok P (sys m2) \<and> links_ok (sys m2) \<and>
     chain_records pid a orig (filter (\<lambda>x. fst x \<notin> set (map fst order)) ?hfs1)
       (site_records (sys m2) pid a) \<and>
     memory (sys m2) =
       (if ?hfs1 \<noteq> [] \<and> fst (hd ?hfs1) \<in> set (map fst order)
        then (memory s')(footprint pid a n [\<mapsto>]
               chain_content P a orig (filter (\<lambda>x. fst x \<notin> set (map fst order)) ?hfs1))
        else memory s') \<and>
     next_handle (sys m2) = next_handle s' \<and>
     map handle (patch_store (sys m2))
       = filter (\<lambda>x. x \<notin> set (map fst order)) (map handle (patch_store s')) \<and>
     (\<forall>p b. (p, b) \<noteq> (pid, a) \<longrightarrow> site_records (sys m2) p b = site_records s' p b)"
    using Cons.IH[of ?m' ?hfs1 rest] ok1 l1 cr1 n len d' sub rest by simp
  let ?rem = "filter (\<lambda>x. fst x \<notin> set (map fst (uh # order))) hfs"
  have rem: "filter (\<lambda>x. fst x \<notin> set (map fst order)) ?hfs1 = ?rem"
    using uh by (auto intro: filter_cong)
  have clen: "\<And>xs. length (chain_content P a orig xs) = n"
    using chain_content_length[of P a orig] len n by simp
  obtain h1 f1 t where hfs: "hfs = (h1, f1) # t" using hin by (cases hfs) auto
  have mem: "memory (sys m2) =
       (if hfs \<noteq> [] \<and> fst (hd hfs) \<in> set (map fst (uh # order))
        then (memory ?s)(footprint pid a n [\<mapsto>] chain_content P a orig ?rem)
        else memory ?s)"
  proof (cases "h1 = h")
    case True
    have t1: "?hfs1 = t" using dist hfs True by (auto simp: filter_id_conv)
    have m1: "memory s' = (memory ?s)(footprint pid a n [\<mapsto>] chain_content P a orig t)"
      using mem1 hfs True n by simp
    show ?thesis
    proof (cases "t \<noteq> [] \<and> fst (hd t) \<in> set (map fst order)")
      case True
      then have "memory (sys m2) = (memory s')(footprint pid a n [\<mapsto>] chain_content P a orig ?rem)"
        using IH t1 rem by simp
      then show ?thesis using m1 hfs \<open>h1 = h\<close> uh
        by (simp add: map_upds_overwrite clen)
    next
      case False
      then have m2: "memory (sys m2) = memory s'" using IH t1 by auto
      have "chain_content P a orig ?rem = chain_content P a orig t"
      proof (cases t)
        case Nil
        then show ?thesis using rem t1 by simp
      next
        case (Cons x xs)
        then have "fst x \<notin> set (map fst order)" using False by simp
        then have "filter (\<lambda>x. fst x \<notin> set (map fst order)) t
            = x # filter (\<lambda>x. fst x \<notin> set (map fst order)) xs"
          using Cons by simp
        then have "?rem = x # filter (\<lambda>x. fst x \<notin> set (map fst order)) xs"
          using rem t1 by (simp only:)
        then show ?thesis unfolding Cons by (simp only: chain_content_def list.case)
      qed
      then show ?thesis using m2 m1 hfs \<open>h1 = h\<close> uh by simp
    qed
  next
    case False
    then have m1: "memory s' = memory ?s" using mem1 hfs by simp
    have hd1: "?hfs1 \<noteq> []" "hd ?hfs1 = (h1, f1)" using hfs False by simp_all
    show ?thesis using IH m1 hd1 rem hfs False uh by auto
  qed
  have hs: "map handle (patch_store (sys m2))
       = filter (\<lambda>x. x \<notin> set (map fst (uh # order))) (map handle (patch_store ?s))"
    using IH hs1 uh by (auto intro: filter_cong)
  show ?case
    using IH rets rem mem hs nh1 oth1 by simp
qed

lemma hooked_site:
  assumes P: "platform_ok P" and ok: "store_ok P s" and links: "links_ok s"
    and orig: "chain_original s pid a = Some orig"
  shows "chain_records pid a orig (hooks_at s pid a) (site_records s pid a)"
    and "hooks_at s pid a \<noteq> []"
    and "length (hook_redirect P a g) = length orig"
    and "mapped (memory s) pid a (length orig)"
proof -
  obtain r0 rest where site: "site_records s pid a = r0 # rest"
    using orig by (cases "site_records s pid a") (auto simp: chain_original_def original_of_def)
  have r0e: "chain_entry r0 \<noteq> None"
  proof
    assume n: "chain_entry r0 = None"
    have "r0 \<in> set (site_records s pid a)" using site by simp
    then have "site_records s pid a = [r0]" using site_injection[OF links _ n] by blast
    then show False using orig n by (simp add: chain_original_def original_of_def)
  qed
  obtain orig' where o': "chain_original s pid a = Some orig'" "length orig' = patch_size r0"
    and cr: "chain_records pid a orig' (hooks_at s pid a) (site_records s pid a)"
    using site_chain[OF links site r0e] by blast
  have eq: "orig' = orig" using o'(1) orig by simp
  show "chain_records pid a orig (hooks_at s pid a) (site_records s pid a)" using cr eq by simp
  then show "hooks_at s pid a \<noteq> []" using site by (cases "hooks_at s pid a") auto
  have r0in: "r0 \<in> set (site_records s pid a)" using site by simp
  show "length (hook_redirect P a g) = length orig"
    using chain_sizes(1)[OF P ok r0in r0e, of g] o'(2) eq by simp
  show "mapped (memory s) pid a (length orig)"
    using chain_sizes(2)[OF P ok r0in r0e] o'(2) eq by simp
qed

lemma site_top:
  "chain_records pid a orig hfs (site_records s pid a) \<Longrightarrow>
     map_option handle (patch_at s pid a) = (case hfs of [] \<Rightarrow> None | (h, f) # _ \<Rightarrow> Some h)"
  by (cases hfs; cases "site_records s pid a") (auto simp: patch_at_site)

lemma handles_gone:
  "map handle (patch_store s') = filter (\<lambda>x. x \<notin> H) (map handle (patch_store s)) \<Longrightarrow>
     h \<in> H \<Longrightarrow> find_handle s' h = None"
proof -
  assume eq: "map handle (patch_store s') = filter (\<lambda>x. x \<notin> H) (map handle (patch_store s))"
    and h: "h \<in> H"
  have "h \<notin> set (map handle (patch_store s'))" unfolding eq using h by simp
  then show ?thesis by (auto simp: find_handle_def find_None_iff)
qed

subsection \<open>Handles\<close>

lemma install_shape:
  assumes "install P pid a sz k c hf s = (res, s')"
  shows "(s' = s \<and> (\<exists>e. res = Inl e)) \<or>
     (res = Inr (next_handle s) \<and> next_handle s' = next_handle s + 1 \<and>
      (\<exists>new. patch_store s' = new # patch_store s \<and> handle new = next_handle s))"
  using assms by (auto simp: install_def dest!: commit_cases split: option.splits if_splits)

text \<open>
  A step adds at most the handle it returns, never lowers the next handle, and leaves a
  handle below the next handle that the table does not hold out of the table.
\<close>
lemma step_handles:
  assumes "store_step P s ret s'"
  shows "set (map handle (patch_store s')) \<subseteq> insert ret (set (map handle (patch_store s)))"
    and "next_handle s \<le> next_handle s'"
    and "h < next_handle s \<Longrightarrow> find_handle s h = None \<Longrightarrow> find_handle s' h = None"
proof -
  have "set (map handle (patch_store s')) \<subseteq> insert ret (set (map handle (patch_store s))) \<and>
      next_handle s \<le> next_handle s' \<and>
      (h < next_handle s \<longrightarrow> find_handle s h = None \<longrightarrow> find_handle s' h = None)"
    using assms
  proof cases
    case Idle
    then show ?thesis by auto
  next
    case (Hooked pid a f ref)
    obtain res where i: "install P pid a (length (hook_redirect P a f)) Hook
        (hook_redirect P a f) f s = (res, s')"
      and res: "(case res of Inl e \<Rightarrow> (error_code P e, None) | Inr uid \<Rightarrow> (uid, Some uid)) = (ret, ref)"
      using Hooked by (auto simp: patches_hook_func_abs_def split: prod.splits sum.splits)
    from install_shape[OF i] res show ?thesis by (auto simp: find_handle_def)
  next
    case (Injected pid a src sz)
    obtain res where i: "install P pid a sz Injection (map src [0..<sz]) 0 s = (res, s')"
      and res: "(case res of Inl e \<Rightarrow> error_code P e | Inr uid \<Rightarrow> uid) = ret"
      using Injected by (auto simp: patches_inject_abs_def split: prod.splits sum.splits)
    from install_shape[OF i] res show ?thesis by (auto simp: find_handle_def)
  next
    case (Released h')
    from patches_release_cases[OF this] show ?thesis
    proof (elim disjE exE conjE)
      fix r assume rel: "release P h' s = (Inr (), s')"
      have hs: "map handle (patch_store s') = filter (\<lambda>x. x \<noteq> h') (map handle (patch_store s))"
        using rel by (rule release_handles)
      have "next_handle s' = next_handle s" using release_next_handle[of P h' s] rel by simp
      moreover have "find_handle s h = None \<longrightarrow> find_handle s' h = None"
      proof
        assume "find_handle s h = None"
        then have "h \<notin> set (map handle (patch_store s))"
          by (auto simp: find_handle_def find_None_iff)
        then have "h \<notin> set (map handle (patch_store s'))" unfolding hs by simp
        then show "find_handle s' h = None" by (auto simp: find_handle_def find_None_iff)
      qed
      ultimately show ?thesis using hs by auto
    qed auto
  qed
  then show "set (map handle (patch_store s')) \<subseteq> insert ret (set (map handle (patch_store s)))"
    and "next_handle s \<le> next_handle s'"
    and "h < next_handle s \<Longrightarrow> find_handle s h = None \<Longrightarrow> find_handle s' h = None"
    by blast+
qed

lemma run_ops_released:
  "h < next_handle (sys m) \<Longrightarrow> find_handle (sys m) h = None \<Longrightarrow>
     find_handle (sys (snd (run_ops (with_patch_store P E) cs m))) h = None"
proof (induction cs arbitrary: m)
  case Nil
  then show ?case by simp
next
  case (Cons c cs)
  obtain r m1 where c: "run_op (with_patch_store P E) c m = (r, m1)"
    by (cases "run_op (with_patch_store P E) c m")
  note st = step_handles[OF run_op_step[OF c]]
  have "h < next_handle (sys m1)" using st(2) Cons.prems(1) by simp
  moreover have "find_handle (sys m1) h = None" using st(3) Cons.prems by blast
  ultimately show ?case using Cons.IH[of m1] c by (simp add: run_ops_snd_Cons del: run_ops.simps)
qed

lemma run_ops_issued:
  "set (map handle (patch_store (sys (snd (run_ops (with_patch_store P E) cs m)))))
     \<subseteq> set (fst (run_ops (with_patch_store P E) cs m)) \<union> set (map handle (patch_store (sys m)))"
proof (induction cs arbitrary: m)
  case Nil
  then show ?case by simp
next
  case (Cons c cs)
  obtain r m1 where c: "run_op (with_patch_store P E) c m = (r, m1)"
    by (cases "run_op (with_patch_store P E) c m")
  obtain rs m2 where cs: "run_ops (with_patch_store P E) cs m1 = (rs, m2)"
    by (cases "run_ops (with_patch_store P E) cs m1")
  have "set (map handle (patch_store (sys m2))) \<subseteq> set rs \<union> set (map handle (patch_store (sys m1)))"
    using Cons.IH[of m1] cs by simp
  moreover have "set (map handle (patch_store (sys m1)))
      \<subseteq> insert r (set (map handle (patch_store (sys m))))"
    using step_handles(1)[OF run_op_step[OF c]] .
  ultimately show ?case using c cs by auto
qed

subsection \<open>The sample instances\<close>

lemma demo_platform_ok: "platform_ok demo_platform"
  by (auto simp: platform_ok_def demo_platform_def split: tai_error.splits)

lemma demo_machine_ok: "store_ok demo_platform (sys demo_machine)" "links_ok (sys demo_machine)"
  by (simp_all add: store_ok_def links_ok_def demo_machine_def demo_tai_def)

section \<open>Properties of the entry points\<close>

text \<open>
  C3: when a hook is installed through a symbolic locator (by export, by import or by
  module offset) and the resolver fails, the entry point returns the resolver's negative
  code, stores nothing through \<^verbatim>\<open>p_hook\<close>, leaves the system state as it was, so that
  no patch record appears, and makes no call besides the one to the resolver: the
  absolute-address install is not invoked.
\<close>
theorem resolution_failure_installs_nothing:
  "(\<forall>ret func. module_get_export_func E pid md lib nid (sys m) = (ret, func) \<and> ret < 0 \<longrightarrow>
      taiHookFunctionExportForKernel E pid md lib nid hook_func m =
        ((ret, None), m\<lparr>calls := calls m @ [Call_module_get_export_func pid md lib nid]\<rparr>))
   \<and> (\<forall>ret stub. module_get_import_func E pid md lib nid (sys m) = (ret, stub) \<and> ret < 0 \<longrightarrow>
      taiHookFunctionImportForKernel E pid md lib nid hook_func m =
        ((ret, None), m\<lparr>calls := calls m @ [Call_module_get_import_func pid md lib nid]\<rparr>))
   \<and> (\<forall>ret addr. module_get_offset E pid modid segidx offset (sys m) = (ret, addr) \<and> ret < 0 \<longrightarrow>
      taiHookFunctionOffsetForKernel E pid modid segidx offset thumb hook_func m =
        ((ret, None), m\<lparr>calls := calls m @ [Call_module_get_offset pid modid segidx offset]\<rparr>))"
  by (simp add: taiHookFunctionExportForKernel_def taiHookFunctionImportForKernel_def
      taiHookFunctionOffsetForKernel_def query_def invoke_def)

theorem resolution_failure_installs_nothing_witness:
  "taiHookFunctionExportForKernel demo_collab 1 ''SceOther'' 0 5 0x2000 \<lparr>sys = 3, calls = []\<rparr> =
     ((- 1, None), \<lparr>sys = 3, calls = [Call_module_get_export_func 1 ''SceOther'' 0 5]\<rparr>)
   \<and> taiHookFunctionImportForKernel demo_collab 1 ''SceOther'' 0 5 0x2000 \<lparr>sys = 3, calls = []\<rparr> =
     ((- 2, None), \<lparr>sys = 3, calls = [Call_module_get_import_func 1 ''SceOther'' 0 5]\<rparr>)
   \<and> taiHookFunctionOffsetForKernel demo_collab 1 8 0 0x40 1 0x2000 \<lparr>sys = 3, calls = []\<rparr> =
     ((- 3, None), \<lparr>sys = 3, calls = [Call_module_get_offset 1 8 0 0x40]\<rparr>)"
proof -
  have e: "module_get_export_func demo_collab 1 ''SceOther'' 0 5 3 = (- 1, 0) \<and> (- 1 :: int) < 0"
    and i: "module_get_import_func demo_collab 1 ''SceOther'' 0 5 3 = (- 2, 0) \<and> (- 2 :: int) < 0"
    and o: "module_get_offset demo_collab 1 8 0 0x40 3 = (- 3, 0) \<and> (- 3 :: int) < 0"
    by (simp_all add: demo_collab_def)
  show ?thesis
    using e i o
      resolution_failure_installs_nothing[of demo_collab 1 "''SceOther''" 0 5
        "\<lparr>sys = 3, calls = []\<rparr>" "0x2000" 8 0 "0x40" 1]
    by simp
qed

text \<open>
  C6: \<^verbatim>\<open>module_start\<close> initialises the process map, then the patches, then adds the
  system's own patches, in this order. A step that returns a negative value makes the
  start fail, and no later step is called; when all three succeed, the start succeeds.
\<close>
theorem module_start_sequence:
  assumes "proc_map_init E (sys m) = (r1, s1)"
    and "patches_init E s1 = (r2, s2)"
    and "hen_add_patches E s2 = (r3, s3)"
  shows "module_start E m =
     (if r1 < 0 then
        (SCE_KERNEL_START_FAILED E, \<lparr>sys = s1, calls = calls m @ [Call_proc_map_init]\<rparr>)
      else if r2 < 0 then
        (SCE_KERNEL_START_FAILED E,
         \<lparr>sys = s2, calls = calls m @ [Call_proc_map_init, Call_patches_init]\<rparr>)
      else
        (if r3 < 0 then SCE_KERNEL_START_FAILED E else SCE_KERNEL_START_SUCCESS E,
         \<lparr>sys = s3,
          calls = calls m @ [Call_proc_map_init, Call_patches_init, Call_hen_add_patches]\<rparr>))"
  using assms by (simp add: module_start_def invoke_def)

theorem module_start_sequence_witness:
  "module_start demo_collab \<lparr>sys = 4, calls = []\<rparr> =
     (2, \<lparr>sys = 15, calls = [Call_proc_map_init, Call_patches_init]\<rparr>)
   \<and> module_start demo_collab \<lparr>sys = 0, calls = []\<rparr> =
     (0, \<lparr>sys = 111, calls = [Call_proc_map_init, Call_patches_init, Call_hen_add_patches]\<rparr>)"
proof -
  have a: "proc_map_init demo_collab (sys \<lparr>sys = 4, calls = []\<rparr>) = (0, 5)"
    "patches_init demo_collab 5 = (- 1, 15)" "hen_add_patches demo_collab 15 = (0, 115)"
    and b: "proc_map_init demo_collab (sys \<lparr>sys = 0, calls = []\<rparr>) = (0, 1)"
    "patches_init demo_collab 1 = (0, 11)" "hen_add_patches demo_collab 11 = (0, 111)"
    by (simp_all add: demo_collab_def)
  show ?thesis
    using module_start_sequence[OF a] module_start_sequence[OF b]
    by (simp add: demo_collab_def)
qed


text \<open>
  C8: \<^verbatim>\<open>taiLoadPluginsForTitleForKernel\<close> returns \<^verbatim>\<open>TAI_ERROR_SYSTEM\<close> exactly when the
  configuration is not loaded, and then does nothing else. When the configuration is
  loaded, it hands the parser the configuration, the title, the plugin-load callback and
  the pid and flags, and returns 0; with a parser that calls its handler once for each
  plugin the configuration lists for the title, the callback runs on each of them in turn.
\<close>
theorem load_plugins_result:
  assumes "TAI_ERROR_SYSTEM E < 0"
  shows "(fst (taiLoadPluginsForTitleForKernel E pid titleid flags m) = TAI_ERROR_SYSTEM E
            \<longleftrightarrow> g_config E (sys m) = None)
    \<and> (g_config E (sys m) = None \<longrightarrow>
          taiLoadPluginsForTitleForKernel E pid titleid flags m = (TAI_ERROR_SYSTEM E, m))
    \<and> (\<forall>config. g_config E (sys m) = Some config \<longrightarrow>
          taiLoadPluginsForTitleForKernel E pid titleid flags m =
            (0, \<lparr>sys = taihen_config_parse E config titleid (hen_load_plugin E)
                         \<lparr>param_pid = pid, param_flags = flags\<rparr> (sys m),
                 calls = calls m @ [Call_taihen_config_parse config titleid
                                      \<lparr>param_pid = pid, param_flags = flags\<rparr>]\<rparr>))
    \<and> (\<forall>config plugins. g_config E (sys m) = Some config
          \<and> (\<forall>handler param s. taihen_config_parse E config titleid handler param s
                = fold (\<lambda>plugin. handler plugin param) plugins s) \<longrightarrow>
          sys (snd (taiLoadPluginsForTitleForKernel E pid titleid flags m)) =
            fold (\<lambda>plugin. hen_load_plugin E plugin \<lparr>param_pid = pid, param_flags = flags\<rparr>)
              plugins (sys m))"
  using assms
  by (auto simp add: taiLoadPluginsForTitleForKernel_def invoke_def TAI_SUCCESS_def Let_def
      split: option.splits)

theorem load_plugins_result_witness:
  "taiLoadPluginsForTitleForKernel demo_collab 9 ''ALL'' 0 \<lparr>sys = 0, calls = []\<rparr> =
     (- 1, \<lparr>sys = 0, calls = []\<rparr>)
   \<and> taiLoadPluginsForTitleForKernel demo_collab 9 ''ALL'' 0 \<lparr>sys = 1, calls = []\<rparr> =
     (0, \<lparr>sys = 16, calls = [Call_taihen_config_parse ''conf'' ''ALL''
                                \<lparr>param_pid = 9, param_flags = 0\<rparr>]\<rparr>)
   \<and> sys (snd (taiLoadPluginsForTitleForKernel demo_collab 9 ''ALL'' 0 \<lparr>sys = 1, calls = []\<rparr>)) =
       hen_load_plugin demo_collab ''bc.skprx'' \<lparr>param_pid = 9, param_flags = 0\<rparr>
         (hen_load_plugin demo_collab ''a.skprx'' \<lparr>param_pid = 9, param_flags = 0\<rparr> 1)"
proof -
  have neg: "TAI_ERROR_SYSTEM demo_collab < 0" by (simp add: demo_collab_def)
  have code: "TAI_ERROR_SYSTEM demo_collab = - 1" by (simp add: demo_collab_def)
  have none: "g_config demo_collab (sys \<lparr>sys = 0, calls = []\<rparr>) = None"
    and some: "g_config demo_collab (sys \<lparr>sys = (1::nat), calls = []\<rparr>) = Some ''conf''"
    and parse: "\<forall>handler param s. taihen_config_parse demo_collab ''conf'' ''ALL'' handler param s
        = fold (\<lambda>plugin. handler plugin param) [''a.skprx'', ''bc.skprx''] s"
    and load: "\<And>plugin param s. hen_load_plugin demo_collab plugin param s = s + length plugin"
    by (simp_all add: demo_collab_def)
  from load_plugins_result[OF neg, of 9 "''ALL''" 0 "\<lparr>sys = 0, calls = []\<rparr>"] none code
  have 1: "taiLoadPluginsForTitleForKernel demo_collab 9 ''ALL'' 0 \<lparr>sys = 0, calls = []\<rparr> =
     (- 1, \<lparr>sys = 0, calls = []\<rparr>)" by simp
  from load_plugins_result[OF neg, of 9 "''ALL''" 0 "\<lparr>sys = 1, calls = []\<rparr>"] some parse
  have 2: "taiLoadPluginsForTitleForKernel demo_collab 9 ''ALL'' 0 \<lparr>sys = 1, calls = []\<rparr> =
     (0, \<lparr>sys = fold (\<lambda>plugin. hen_load_plugin demo_collab plugin
                          \<lparr>param_pid = 9, param_flags = 0\<rparr>) [''a.skprx'', ''bc.skprx''] 1,
          calls = [Call_taihen_config_parse ''conf'' ''ALL''
                                \<lparr>param_pid = 9, param_flags = 0\<rparr>]\<rparr>)" by simp
  show ?thesis using 1 2 by (simp add: load)
qed

text \<open>
  C10: when the offset locator resolves to an address \<open>A\<close>, the hook is installed at
  \<open>A OR 1\<close>, whose least significant bit is set, if the thumb flag is non-zero, and at
  \<open>A\<close> if it is zero; the flag enters the call in no other way.
\<close>
theorem offset_hook_thumb_bit:
  assumes "module_get_offset E pid modid segidx offset (sys m) = (ret, A)"
    and "0 \<le> ret"
  shows "taiHookFunctionOffsetForKernel E pid modid segidx offset thumb hook_func m =
     (let dest = (if thumb \<noteq> 0 then A OR 1 else A)
      in case tai_hook_func_abs E pid dest hook_func (sys m) of
           (r, s') \<Rightarrow>
             (r, \<lparr>sys = s',
                  calls = calls m @ [Call_module_get_offset pid modid segidx offset,
                                     Call_tai_hook_func_abs pid dest hook_func]\<rparr>))
     \<and> bit (A OR 1) 0"
  using assms
  by (simp add: taiHookFunctionOffsetForKernel_def taiHookFunctionAbs_def query_def invoke_def
      Let_def bit_simps split: prod.splits)

theorem offset_hook_thumb_bit_witness:
  "taiHookFunctionOffsetForKernel demo_collab 1 7 0 0x40 1 0x2000 \<lparr>sys = 3, calls = []\<rparr> =
     ((3, Some 3), \<lparr>sys = 4, calls = [Call_module_get_offset 1 7 0 0x40,
                                        Call_tai_hook_func_abs 1 0x81000041 0x2000]\<rparr>)
   \<and> taiHookFunctionOffsetForKernel demo_collab 1 7 0 0x40 0 0x2000 \<lparr>sys = 3, calls = []\<rparr> =
     ((3, Some 3), \<lparr>sys = 4, calls = [Call_module_get_offset 1 7 0 0x40,
                                        Call_tai_hook_func_abs 1 0x81000040 0x2000]\<rparr>)"
proof -
  have r: "module_get_offset demo_collab 1 7 0 0x40 (sys \<lparr>sys = 3, calls = []\<rparr>) = (0, 0x81000040)"
    by (simp add: demo_collab_def)
  have z: "(0::int) \<le> 0" by simp
  have o: "(0x81000040 :: 32 word) OR 1 = 0x81000041" by simp
  show ?thesis
    using offset_hook_thumb_bit[OF r z, of 1 "0x2000"] offset_hook_thumb_bit[OF r z, of 0 "0x2000"] o
    by (simp add: demo_collab_def)
qed

section \<open>Properties of the Patch Store\<close>

text \<open>
  C1: at a valid address (not restricted, its range mapped) that holds no patch, an
  injection or a hook install succeeds and overwrites the target, and releasing the
  returned handle right away succeeds and leaves memory exactly as it was before the
  install, with the address unpatched again.
\<close>
theorem install_release_restores:
  assumes nh: "0 \<le> next_handle (sys m)"
    and valid: "\<not> is_restricted P pid a"
    and unpatched: "patch_at (sys m) pid a = None"
  shows "(mapped (memory (sys m)) pid a sz \<longrightarrow>
           (case taiInjectAbsForKernel (with_patch_store P E) pid a src sz m of
              (uid, m1) \<Rightarrow>
                0 \<le> uid \<and>
                mem_write (memory (sys m)) pid a (map src [0..<sz]) = Some (memory (sys m1)) \<and>
                (case taiInjectReleaseForKernel (with_patch_store P E) uid m1 of
                   (ret, m2) \<Rightarrow>
                     ret = 0 \<and> memory (sys m2) = memory (sys m) \<and>
                     patch_at (sys m2) pid a = None)))
       \<and> (mapped (memory (sys m)) pid a (length (hook_redirect P a hook_func)) \<longrightarrow>
           (case taiHookFunctionAbs (with_patch_store P E) pid a hook_func m of
              ((uid, ref), m1) \<Rightarrow>
                0 \<le> uid \<and>
                mem_write (memory (sys m)) pid a (hook_redirect P a hook_func)
                  = Some (memory (sys m1)) \<and>
                (\<forall>hook. case taiHookReleaseForKernel (with_patch_store P E) uid hook m1 of
                   (ret, m2) \<Rightarrow>
                     ret = 0 \<and> memory (sys m2) = memory (sys m) \<and>
                     patch_at (sys m2) pid a = None)))"
proof -
  let ?s = "sys m"
  have core: "\<exists>s1. install P pid a n k content hf ?s = (Inr (next_handle ?s), s1) \<and>
        mem_write (memory ?s) pid a content = Some (memory s1) \<and>
        (\<exists>s2. release P (next_handle ?s) s1 = (Inr (), s2) \<and> memory s2 = memory ?s \<and>
          patch_at s2 pid a = None)"
    if mp: "mapped (memory ?s) pid a n" and n: "length content = n" for n k content hf
  proof -
    obtain old where rd: "mem_read (memory ?s) pid a n = Some old"
      using mp by (simp add: mem_read_def)
    obtain mem' where wr: "mem_write (memory ?s) pid a content = Some mem'"
      using mp n by (simp add: mem_write_def)
    let ?link = "case k of Hook \<Rightarrow> Some \<lparr>chain_address = a, hook_function = hf,
                              next_ref = Original old\<rparr> | Injection \<Rightarrow> None"
    let ?r = "\<lparr>handle = next_handle ?s, owner_pid = pid, target_address = a, kind = k,
               original_content = old, patch_size = n, chain_entry = ?link\<rparr>"
    let ?s1 = "?s\<lparr>memory := mem', patch_store := ?r # patch_store ?s,
                  next_handle := next_handle ?s + 1\<rparr>"
    have i: "install P pid a n k content hf ?s = (Inr (next_handle ?s), ?s1)"
      using valid unpatched rd wr n by (simp add: install_def commit_def)
    have wb: "mem_write mem' pid a old = Some (memory ?s)"
      using mem_write_restore[OF rd wr] n by simp
    let ?s2 = "?s1\<lparr>memory := memory ?s,
                   patch_store := remove_record (next_handle ?s) (?r # patch_store ?s)\<rparr>"
    have "release P (next_handle ?s) ?s1 = (Inr (), ?s2)"
      using wb
      by (cases k) (simp_all add: release_def find_handle_def patch_at_def restore_def
          active_content_def)
    moreover have "patch_at ?s2 pid a = None"
      using unpatched by (simp add: patch_at_def remove_record_def find_filter_None)
    ultimately show ?thesis using i wr by auto
  qed
  have inj: "mapped (memory ?s) pid a sz \<longrightarrow>
      (case taiInjectAbsForKernel (with_patch_store P E) pid a src sz m of
         (uid, m1) \<Rightarrow>
           0 \<le> uid \<and>
           mem_write (memory ?s) pid a (map src [0..<sz]) = Some (memory (sys m1)) \<and>
           (case taiInjectReleaseForKernel (with_patch_store P E) uid m1 of
              (ret, m2) \<Rightarrow>
                ret = 0 \<and> memory (sys m2) = memory ?s \<and> patch_at (sys m2) pid a = None))"
  proof
    assume "mapped (memory ?s) pid a sz"
    from core[OF this, of "map src [0..<sz]" Injection 0] nh show "case taiInjectAbsForKernel (with_patch_store P E) pid a src sz m of
         (uid, m1) \<Rightarrow>
           0 \<le> uid \<and>
           mem_write (memory ?s) pid a (map src [0..<sz]) = Some (memory (sys m1)) \<and>
           (case taiInjectReleaseForKernel (with_patch_store P E) uid m1 of
              (ret, m2) \<Rightarrow>
                ret = 0 \<and> memory (sys m2) = memory ?s \<and> patch_at (sys m2) pid a = None)"
      by (auto simp: inject_abs_sys inject_release_sys patches_inject_abs_def
          patches_release_def TAI_SUCCESS_def)
  qed
  have hook: "mapped (memory ?s) pid a (length (hook_redirect P a hook_func)) \<longrightarrow>
      (case taiHookFunctionAbs (with_patch_store P E) pid a hook_func m of
         ((uid, ref), m1) \<Rightarrow>
           0 \<le> uid \<and>
           mem_write (memory ?s) pid a (hook_redirect P a hook_func) = Some (memory (sys m1)) \<and>
           (\<forall>hook. case taiHookReleaseForKernel (with_patch_store P E) uid hook m1 of
              (ret, m2) \<Rightarrow>
                ret = 0 \<and> memory (sys m2) = memory ?s \<and> patch_at (sys m2) pid a = None))"
  proof
    assume "mapped (memory ?s) pid a (length (hook_redirect P a hook_func))"
    from core[OF this, of "hook_redirect P a hook_func" Hook hook_func] nh
    show "case taiHookFunctionAbs (with_patch_store P E) pid a hook_func m of
         ((uid, ref), m1) \<Rightarrow>
           0 \<le> uid \<and>
           mem_write (memory ?s) pid a (hook_redirect P a hook_func) = Some (memory (sys m1)) \<and>
           (\<forall>hook. case taiHookReleaseForKernel (with_patch_store P E) uid hook m1 of
              (ret, m2) \<Rightarrow>
                ret = 0 \<and> memory (sys m2) = memory ?s \<and> patch_at (sys m2) pid a = None)"
      by (auto simp: hook_abs_sys hook_release_sys patches_hook_func_abs_def
          patches_release_def TAI_SUCCESS_def)
  qed
  show ?thesis using inj hook by blast
qed

theorem install_release_restores_witness:
  "(case taiInjectAbsForKernel demo_env 1 0x1000 (\<lambda>i. 0xFF) 2 demo_machine of
      (uid, m1) \<Rightarrow>
        0 \<le> uid \<and>
        mem_write (memory (sys demo_machine)) 1 0x1000 (map (\<lambda>i. 0xFF) [0..<2])
          = Some (memory (sys m1)) \<and>
        (case taiInjectReleaseForKernel demo_env uid m1 of
           (ret, m2) \<Rightarrow>
             ret = 0 \<and> memory (sys m2) = memory (sys demo_machine) \<and>
             patch_at (sys m2) 1 0x1000 = None))
   \<and> (case taiHookFunctionAbs demo_env 1 0x1000 0x2000 demo_machine of
      ((uid, ref), m1) \<Rightarrow>
        0 \<le> uid \<and>
        mem_write (memory (sys demo_machine)) 1 0x1000 (hook_redirect demo_platform 0x1000 0x2000)
          = Some (memory (sys m1)) \<and>
        (\<forall>hook. case taiHookReleaseForKernel demo_env uid hook m1 of
           (ret, m2) \<Rightarrow>
             ret = 0 \<and> memory (sys m2) = memory (sys demo_machine) \<and>
             patch_at (sys m2) 1 0x1000 = None))
   \<and> fst (taiInjectAbsForKernel demo_env 1 0x1000 (\<lambda>i. 0xFF) 2 demo_machine) = 1
   \<and> mem_read (memory (sys (snd (taiInjectAbsForKernel demo_env 1 0x1000 (\<lambda>i. 0xFF) 2
          demo_machine)))) 1 0x1000 4 = Some [0xFF, 0xFF, 0x12, 0x13]
   \<and> mem_read (memory (sys demo_machine)) 1 0x1000 4 = Some [0x10, 0x11, 0x12, 0x13]"
proof -
  have nh: "0 \<le> next_handle (sys demo_machine)"
    by (simp add: demo_machine_def demo_tai_def)
  have valid: "\<not> is_restricted demo_platform 1 0x1000"
    by (simp add: demo_platform_def)
  have unpatched: "patch_at (sys demo_machine) 1 0x1000 = None"
    by (simp add: demo_machine_def demo_tai_def patch_at_def)
  have range: "mapped (memory (sys demo_machine)) 1 0x1000 2"
    "mapped (memory (sys demo_machine)) 1 0x1000 (length (hook_redirect demo_platform 0x1000 0x2000))"
    by code_simp+
  have ev: "fst (taiInjectAbsForKernel demo_env 1 0x1000 (\<lambda>i. 0xFF) 2 demo_machine) = 1"
    "mem_read (memory (sys (snd (taiInjectAbsForKernel demo_env 1 0x1000 (\<lambda>i. 0xFF) 2
          demo_machine)))) 1 0x1000 4 = Some [0xFF, 0xFF, 0x12, 0x13]"
    "mem_read (memory (sys demo_machine)) 1 0x1000 4 = Some [0x10, 0x11, 0x12, 0x13]"
    by code_simp+
  note t = install_release_restores[OF nh valid unpatched, where sz = 2 and E = idle_collab
      and src = "\<lambda>i. 0xFF" and hook_func = "0x2000", folded demo_env_def]
  show ?thesis
  proof (intro conjI, goal_cases)
    case 1
    show ?case by (rule mp[OF conjunct1[OF t] range(1)])
  next
    case 2
    show ?case by (rule mp[OF conjunct2[OF t] range(2)])
  next
    case 3
    show ?case by (rule ev(1))
  next
    case 4
    show ?case by (rule ev(2))
  next
    case 5
    show ?case by (rule ev(3))
  qed
qed

text \<open>
  C4: an injection at an address that holds an active patch, hook or injection, fails
  with the code of \<open>PatchExists\<close> and changes neither the patches nor memory. A hook at an
  address that holds a hook succeeds: the table gains one record in front of the
  unchanged others, the new hook becomes the active redirect, and its call-through
  resolves to the hook that was topmost.
\<close>
theorem injection_fails_hook_extends:
  assumes ok: "store_ok P (sys m)" and at: "patch_at (sys m) pid a = Some r"
  shows "taiInjectAbsForKernel (with_patch_store P E) pid a src sz m =
           (error_code P PatchExists, m\<lparr>calls := calls m @ [Call_tai_inject_abs pid a sz]\<rparr>)
       \<and> (platform_ok P \<and> kind r = Hook \<longrightarrow>
           (case taiHookFunctionAbs (with_patch_store P E) pid a hook_func m of
              ((uid, ref), m1) \<Rightarrow>
                uid = next_handle (sys m) \<and> 0 \<le> uid \<and> ref = Some uid \<and>
                (\<exists>new. patch_store (sys m1) = new # patch_store (sys m) \<and> handle new = uid \<and>
                       kind new = Hook) \<and>
                map_option handle (patch_at (sys m1) pid a) = Some uid \<and>
                (\<exists>e. chain_entry r = Some e \<and>
                     call_through (sys m1) uid = Some (Next_hook (hook_function e))) \<and>
                mem_write (memory (sys m)) pid a (hook_redirect P a hook_func)
                  = Some (memory (sys m1))))"
proof -
  let ?s = "sys m"
  have rin: "r \<in> set (patch_store ?s)" and rat: "owner_pid r = pid" "target_address r = a"
    using patch_at_SomeD[OF at] by auto
  have rok: "record_ok P ?s r" using ok rin by (auto simp: store_ok_def list_all_iff)
  have nr: "\<not> is_restricted P pid a" using rok rat by (auto simp: record_ok_def)
  have inj: "taiInjectAbsForKernel (with_patch_store P E) pid a src sz m =
           (error_code P PatchExists, m\<lparr>calls := calls m @ [Call_tai_inject_abs pid a sz]\<rparr>)"
    using nr at by (simp add: inject_abs_sys patches_inject_abs_def install_def)
  have hook: "case taiHookFunctionAbs (with_patch_store P E) pid a hook_func m of
              ((uid, ref), m1) \<Rightarrow>
                uid = next_handle (sys m) \<and> 0 \<le> uid \<and> ref = Some uid \<and>
                (\<exists>new. patch_store (sys m1) = new # patch_store (sys m) \<and> handle new = uid \<and>
                       kind new = Hook) \<and>
                map_option handle (patch_at (sys m1) pid a) = Some uid \<and>
                (\<exists>e. chain_entry r = Some e \<and>
                     call_through (sys m1) uid = Some (Next_hook (hook_function e))) \<and>
                mem_write (memory (sys m)) pid a (hook_redirect P a hook_func)
                  = Some (memory (sys m1))"
    if P: "platform_ok P" and k: "kind r = Hook"
  proof -
    let ?new = "hook_redirect P a hook_func"
    obtain e where e: "chain_entry r = Some e"
      "patch_size r = length (hook_redirect P a (hook_function e))"
      using rok k rat by (auto simp: record_ok_def split: option.splits)
    have len: "patch_size r = length ?new" using e P by (simp add: platform_ok_def)
    have mp: "mapped (memory ?s) pid a (length ?new)"
      using rok rat len by (simp add: record_ok_def)
    have hr: "handle r < next_handle ?s" using rok by (simp add: record_ok_def)
    have nh: "0 \<le> next_handle ?s" using ok by (simp add: store_ok_def)
    have fr: "find (\<lambda>x. handle x = handle r) (patch_store ?s) = Some r"
      using ok rin by (simp add: store_ok_def find_handle_distinct)
    show ?thesis
      using nr at k mp hr nh fr e
      by (simp add: hook_abs_sys patches_hook_func_abs_def install_def commit_def mem_read_def
          mem_write_def patch_at_def call_through_def find_handle_def)
  qed
  show ?thesis
  proof (intro conjI impI, goal_cases)
    case 1
    show ?case by (rule inj)
  next
    case 2
    from hook[OF conjunct1[OF 2] conjunct2[OF 2]] show ?case .
  qed
qed

theorem injection_fails_hook_extends_witness:
  "taiInjectAbsForKernel demo_env 1 0x1000 (\<lambda>i. 0xFF) 2 demo_hooked =
     (- 5, demo_hooked\<lparr>calls := calls demo_hooked @ [Call_tai_inject_abs 1 0x1000 2]\<rparr>)
   \<and> (case taiHookFunctionAbs demo_env 1 0x1000 0x3000 demo_hooked of
        ((uid, ref), m1) \<Rightarrow>
          uid = next_handle (sys demo_hooked) \<and> 0 \<le> uid \<and> ref = Some uid \<and>
          (\<exists>new. patch_store (sys m1) = new # patch_store (sys demo_hooked) \<and>
                 handle new = uid \<and> kind new = Hook) \<and>
          map_option handle (patch_at (sys m1) 1 0x1000) = Some uid \<and>
          call_through (sys m1) uid = Some (Next_hook 0x2000) \<and>
          mem_write (memory (sys demo_hooked)) 1 0x1000 (hook_redirect demo_platform 0x1000 0x3000)
            = Some (memory (sys m1)))
   \<and> fst (taiHookFunctionAbs demo_env 1 0x1000 0x3000 demo_hooked) = (2, Some 2)
   \<and> map handle (patch_store (sys (snd (taiHookFunctionAbs demo_env 1 0x1000 0x3000
          demo_hooked)))) = [2, 1]"
proof -
  let ?r = "\<lparr>handle = 1, owner_pid = 1, target_address = 0x1000, kind = Hook,
             original_content = [0x10, 0x11], patch_size = 2,
             chain_entry = Some \<lparr>chain_address = 0x1000, hook_function = 0x2000,
                                  next_ref = Original [0x10, 0x11]\<rparr>\<rparr>"
  have ok0: "store_ok demo_platform (sys demo_machine)"
    by (simp add: store_ok_def demo_machine_def demo_tai_def)
  have ok: "store_ok demo_platform (sys demo_hooked)"
    using store_ok_hook_func_abs[OF ok0, of 1 "0x1000" "0x2000"]
    by (simp add: demo_hooked_def demo_env_def hook_abs_sys)
  have at: "patch_at (sys demo_hooked) 1 0x1000 = Some ?r" by code_simp
  have P: "platform_ok demo_platform"
    by (auto simp: platform_ok_def demo_platform_def split: tai_error.splits)
  have k: "kind ?r = Hook" by simp
  have ev: "fst (taiHookFunctionAbs demo_env 1 0x1000 0x3000 demo_hooked) = (2, Some 2)"
    "map handle (patch_store (sys (snd (taiHookFunctionAbs demo_env 1 0x1000 0x3000
          demo_hooked)))) = [2, 1]"
    by code_simp+
  have code: "error_code demo_platform PatchExists = - 5" by (simp add: demo_platform_def)
  from injection_fails_hook_extends[OF ok at, where E = idle_collab and src = "\<lambda>i. 0xFF"
      and sz = 2 and hook_func = "0x3000"] P k ev code
  show ?thesis unfolding demo_env_def by (auto split: prod.splits)
qed

text \<open>
  C5: releasing a handle the store does not hold fails with the code of \<open>InvalidHandle\<close>
  and changes nothing: the state is the same, only the call is logged. A handle is not
  held when it was never issued: it is not below the next handle, or, in a history of
  calls that starts from an empty store, no call returned it. And it is not held after
  its successful release, whatever installs and releases follow: handles are not handed
  out again, so that every later release of it fails with \<open>InvalidHandle\<close>.
\<close>
theorem release_unknown_handle_fails:
  "(find_handle (sys m) h = None \<longrightarrow>
      taiHookReleaseForKernel (with_patch_store P E) h hook m =
        (error_code P InvalidHandle, m\<lparr>calls := calls m @ [Call_tai_hook_release h hook]\<rparr>) \<and>
      taiInjectReleaseForKernel (with_patch_store P E) h m =
        (error_code P InvalidHandle, m\<lparr>calls := calls m @ [Call_tai_inject_release h]\<rparr>))
   \<and> (store_ok P (sys m) \<and> next_handle (sys m) \<le> h \<longrightarrow> find_handle (sys m) h = None)
   \<and> (patch_store (sys m) = [] \<longrightarrow>
        (\<forall>history. h \<notin> set (fst (run_ops (with_patch_store P E) history m)) \<longrightarrow>
           find_handle (sys (snd (run_ops (with_patch_store P E) history m))) h = None))
   \<and> (platform_ok P \<longrightarrow>
        (\<forall>m1. taiHookReleaseForKernel (with_patch_store P E) h hook m = (0, m1) \<longrightarrow>
               find_handle (sys m1) h = None) \<and>
        (\<forall>m1. taiInjectReleaseForKernel (with_patch_store P E) h m = (0, m1) \<longrightarrow>
               find_handle (sys m1) h = None))
   \<and> (platform_ok P \<and> store_ok P (sys m) \<longrightarrow>
        (\<forall>m1 history.
           taiHookReleaseForKernel (with_patch_store P E) h hook m = (0, m1) \<or>
           taiInjectReleaseForKernel (with_patch_store P E) h m = (0, m1) \<longrightarrow>
           (let m2 = snd (run_ops (with_patch_store P E) history m1)
            in find_handle (sys m2) h = None \<and>
               (\<forall>hook'. taiHookReleaseForKernel (with_patch_store P E) h hook' m2 =
                  (error_code P InvalidHandle,
                   m2\<lparr>calls := calls m2 @ [Call_tai_hook_release h hook']\<rparr>)) \<and>
               taiInjectReleaseForKernel (with_patch_store P E) h m2 =
                 (error_code P InvalidHandle,
                  m2\<lparr>calls := calls m2 @ [Call_tai_inject_release h]\<rparr>))))"
proof -
  let ?E = "with_patch_store P E"
  have A: "find_handle (sys m) h = None \<longrightarrow>
      taiHookReleaseForKernel ?E h hook m =
        (error_code P InvalidHandle, m\<lparr>calls := calls m @ [Call_tai_hook_release h hook]\<rparr>) \<and>
      taiInjectReleaseForKernel ?E h m =
        (error_code P InvalidHandle, m\<lparr>calls := calls m @ [Call_tai_inject_release h]\<rparr>)"
    for m :: "tai machine" and hook
    by (simp add: hook_release_sys inject_release_sys patches_release_def release_def)
  have B: "store_ok P (sys m) \<and> next_handle (sys m) \<le> h \<longrightarrow> find_handle (sys m) h = None"
    by (fastforce simp: find_handle_def find_None_iff store_ok_def list_all_iff record_ok_def)
  have N: "patch_store (sys m) = [] \<longrightarrow>
        (\<forall>history. h \<notin> set (fst (run_ops ?E history m)) \<longrightarrow>
           find_handle (sys (snd (run_ops ?E history m))) h = None)"
  proof (intro impI allI)
    fix history
    assume e: "patch_store (sys m) = []" and n: "h \<notin> set (fst (run_ops ?E history m))"
    have "h \<notin> set (map handle (patch_store (sys (snd (run_ops ?E history m)))))"
      using run_ops_issued[of P E history m] e n by auto
    then show "find_handle (sys (snd (run_ops ?E history m))) h = None"
      by (auto simp: find_handle_def find_None_iff)
  qed
  have C: "platform_ok P \<longrightarrow>
        (\<forall>m1. taiHookReleaseForKernel ?E h hook m = (0, m1) \<longrightarrow> find_handle (sys m1) h = None) \<and>
        (\<forall>m1. taiInjectReleaseForKernel ?E h m = (0, m1) \<longrightarrow> find_handle (sys m1) h = None)"
    using patches_release_gone[of P h "sys m"]
    by (auto simp: hook_release_sys inject_release_sys) (metis prod.collapse)+
  have D: "platform_ok P \<and> store_ok P (sys m) \<longrightarrow>
        (\<forall>m1 history.
           taiHookReleaseForKernel ?E h hook m = (0, m1) \<or>
           taiInjectReleaseForKernel ?E h m = (0, m1) \<longrightarrow>
           (let m2 = snd (run_ops ?E history m1)
            in find_handle (sys m2) h = None \<and>
               (\<forall>hook'. taiHookReleaseForKernel ?E h hook' m2 =
                  (error_code P InvalidHandle,
                   m2\<lparr>calls := calls m2 @ [Call_tai_hook_release h hook']\<rparr>)) \<and>
               taiInjectReleaseForKernel ?E h m2 =
                 (error_code P InvalidHandle,
                  m2\<lparr>calls := calls m2 @ [Call_tai_inject_release h]\<rparr>)))"
  proof (intro impI allI, elim conjE)
    fix m1 history
    assume P: "platform_ok P" and ok: "store_ok P (sys m)"
      and rel: "taiHookReleaseForKernel ?E h hook m = (0, m1) \<or>
           taiInjectReleaseForKernel ?E h m = (0, m1)"
    then have pr: "patches_release P h (sys m) = (0, sys m1)"
      by (cases "patches_release P h (sys m)") (auto simp: hook_release_sys inject_release_sys)
    have neg: "\<And>e. error_code P e \<noteq> 0" using P by (auto simp: platform_ok_def less_le)
    from patches_release_cases[OF pr] neg
    obtain r where fh: "find_handle (sys m) h = Some r" and r: "release P h (sys m) = (Inr (), sys m1)"
      by auto
    have "r \<in> set (patch_store (sys m))" "handle r = h" using find_handle_SomeD[OF fh] by auto
    then have "h < next_handle (sys m)"
      using store_ok_record[OF ok] by (auto simp: record_ok_def)
    then have lt: "h < next_handle (sys m1)" using release_next_handle[of P h "sys m"] r by simp
    have gone: "find_handle (sys m1) h = None" using r by (rule release_Inr_gone)
    let ?m2 = "snd (run_ops ?E history m1)"
    have g2: "find_handle (sys ?m2) h = None" using lt gone by (rule run_ops_released)
    show "let m2 = snd (run_ops ?E history m1)
            in find_handle (sys m2) h = None \<and>
               (\<forall>hook'. taiHookReleaseForKernel ?E h hook' m2 =
                  (error_code P InvalidHandle,
                   m2\<lparr>calls := calls m2 @ [Call_tai_hook_release h hook']\<rparr>)) \<and>
               taiInjectReleaseForKernel ?E h m2 =
                 (error_code P InvalidHandle,
                  m2\<lparr>calls := calls m2 @ [Call_tai_inject_release h]\<rparr>)"
      unfolding Let_def using g2 A[of ?m2] by blast
  qed
  show ?thesis using A[of m hook] B N C D by blast
qed

theorem release_unknown_handle_fails_witness:
  "taiHookReleaseForKernel demo_env 7 7 demo_hooked =
     (- 3, demo_hooked\<lparr>calls := calls demo_hooked @ [Call_tai_hook_release 7 7]\<rparr>)
   \<and> taiInjectReleaseForKernel demo_env 7 demo_hooked =
     (- 3, demo_hooked\<lparr>calls := calls demo_hooked @ [Call_tai_inject_release 7]\<rparr>)
   \<and> find_handle (sys demo_hooked) 7 = None
   \<and> fst (run_ops demo_env demo_history demo_machine) = [1, 2, 3]
   \<and> find_handle (sys (snd (run_ops demo_env demo_history demo_machine))) 4 = None
   \<and> find_handle (sys (snd (run_ops demo_env demo_history demo_machine))) 0 = None
   \<and> fst (taiHookReleaseForKernel demo_env 1 1 demo_hooked) = 0
   \<and> find_handle (sys demo_released) 1 = None
   \<and> fst (run_ops demo_env demo_later demo_released) = [2, 3]
   \<and> map handle (patch_store (sys demo_reinstalled)) = [3, 2]
   \<and> find_handle (sys demo_reinstalled) 1 = None
   \<and> taiHookReleaseForKernel demo_env 1 1 demo_reinstalled =
     (- 3, demo_reinstalled\<lparr>calls := calls demo_reinstalled @ [Call_tai_hook_release 1 1]\<rparr>)
   \<and> taiInjectReleaseForKernel demo_env 1 demo_reinstalled =
     (- 3, demo_reinstalled\<lparr>calls := calls demo_reinstalled @ [Call_tai_inject_release 1]\<rparr>)"
proof -
  have ok0: "store_ok demo_platform (sys demo_machine)" by (rule demo_machine_ok(1))
  have ok: "store_ok demo_platform (sys demo_hooked)"
    using store_ok_hook_func_abs[OF ok0, of 1 "0x1000" "0x2000"]
    by (simp add: demo_hooked_def demo_env_def hook_abs_sys)
  have nh: "next_handle (sys demo_hooked) \<le> 7" by code_simp
  have ret0: "fst (taiHookReleaseForKernel demo_env 1 1 demo_hooked) = 0" by code_simp
  then have first: "taiHookReleaseForKernel demo_env 1 1 demo_hooked = (0, demo_released)"
    unfolding demo_released_def by (metis prod.collapse)
  have code: "error_code demo_platform InvalidHandle = - 3" by (simp add: demo_platform_def)
  have outs: "fst (run_ops demo_env demo_history demo_machine) = [1, 2, 3]"
    "fst (run_ops demo_env demo_later demo_released) = [2, 3]"
    "map handle (patch_store (sys demo_reinstalled)) = [3, 2]"
    by code_simp+
  have empty: "patch_store (sys demo_machine) = []" by (simp add: demo_machine_def demo_tai_def)
  note a = release_unknown_handle_fails[where m = demo_hooked and h = 7 and P = demo_platform
      and E = idle_collab and hook = 7, folded demo_env_def, unfolded code]
  note b = release_unknown_handle_fails[where m = demo_hooked and h = 1 and P = demo_platform
      and E = idle_collab and hook = 1, folded demo_env_def, unfolded code]
  note c4 = release_unknown_handle_fails[where m = demo_machine and h = 4 and P = demo_platform
      and E = idle_collab, folded demo_env_def]
  note c0 = release_unknown_handle_fails[where m = demo_machine and h = 0 and P = demo_platform
      and E = idle_collab, folded demo_env_def]
  have gone7: "find_handle (sys demo_hooked) 7 = None"
    using a[THEN conjunct2, THEN conjunct1] ok nh by blast
  note fail7 = a[THEN conjunct1, THEN mp, OF gone7]
  have never4: "find_handle (sys (snd (run_ops demo_env demo_history demo_machine))) 4 = None"
    using c4[THEN conjunct2, THEN conjunct2, THEN conjunct1] empty outs(1) by simp
  have never0: "find_handle (sys (snd (run_ops demo_env demo_history demo_machine))) 0 = None"
    using c0[THEN conjunct2, THEN conjunct2, THEN conjunct1] empty outs(1) by simp
  have gone1: "find_handle (sys demo_released) 1 = None"
    using b[THEN conjunct2, THEN conjunct2, THEN conjunct2, THEN conjunct1] demo_platform_ok first
    by blast
  have later: "find_handle (sys demo_reinstalled) 1 = None \<and>
      (\<forall>hook'. taiHookReleaseForKernel demo_env 1 hook' demo_reinstalled =
         (- 3, demo_reinstalled\<lparr>calls := calls demo_reinstalled @ [Call_tai_hook_release 1 hook']\<rparr>)) \<and>
      taiInjectReleaseForKernel demo_env 1 demo_reinstalled =
         (- 3, demo_reinstalled\<lparr>calls := calls demo_reinstalled @ [Call_tai_inject_release 1]\<rparr>)"
    using b[THEN conjunct2, THEN conjunct2, THEN conjunct2, THEN conjunct2, THEN mp,
        OF conjI[OF demo_platform_ok ok], rule_format, OF disjI1[OF first], of demo_later]
    by (simp add: Let_def demo_reinstalled_def)
  show ?thesis
  proof (intro conjI, goal_cases)
    case 1 show ?case by (rule fail7[THEN conjunct1])
  next
    case 2 show ?case by (rule fail7[THEN conjunct2])
  next
    case 3 show ?case by (rule gone7)
  next
    case 4 show ?case by (rule outs(1))
  next
    case 5 show ?case by (rule never4)
  next
    case 6 show ?case by (rule never0)
  next
    case 7 show ?case by (rule ret0)
  next
    case 8 show ?case by (rule gone1)
  next
    case 9 show ?case by (rule outs(2))
  next
    case 10 show ?case by (rule outs(3))
  next
    case 11 show ?case using later by blast
  next
    case 12 show ?case using later by blast
  next
    case 13 show ?case using later by blast
  qed
qed

text \<open>
  C2: a store is reached from a well-formed one (the empty store is one) by any history
  of installs and releases, at any addresses, and some or all hooks of the chain it
  holds at an address are then released in any order. Every release succeeds. Before
  and after, each hook of the chain calls through to the hook function of the next
  older remaining hook, and the oldest to the original content. The newest remaining
  hook is the active patch. Memory is unchanged as long as the topmost hook is not
  released, and holds the redirect to the newest remaining hook once it is; each single
  release of a hook that is not topmost leaves memory untouched, and that of the
  topmost hook makes the next entry the active redirect. The released handles are
  gone and the patches at the other addresses are as they were. When all hooks are
  released, the target holds the original content, which is what the target held just
  before the call that started the chain.
\<close>
theorem chain_release_any_order:
  assumes P: "platform_ok P"
    and ok: "store_ok P (sys m0)" and links: "links_ok (sys m0)"
    and hist: "run_ops (with_patch_store P E) history m0 = (outs, m)"
    and orig: "chain_original (sys m) pid a = Some orig"
    and dist: "distinct (map fst order)"
    and sub: "set (map fst order) \<subseteq> set (map fst (hooks_at (sys m) pid a))"
    and rel: "release_each (with_patch_store P E) order m = (rets, m2)"
  shows "let chain = hooks_at (sys m) pid a;
             remaining = filter (\<lambda>x. fst x \<notin> set (map fst order)) chain
         in rets = replicate (length order) 0 \<and>
            resolves (sys m) orig chain \<and>
            hooks_at (sys m2) pid a = remaining \<and>
            resolves (sys m2) orig remaining \<and>
            map_option handle (patch_at (sys m2) pid a) =
              (case remaining of [] \<Rightarrow> None | (h, f) # _ \<Rightarrow> Some h) \<and>
            Some (memory (sys m2)) =
              (if fst (hd chain) \<in> set (map fst order)
               then mem_write (memory (sys m)) pid a (chain_content P a orig remaining)
               else Some (memory (sys m))) \<and>
            (\<forall>h \<in> set (map fst order). find_handle (sys m2) h = None) \<and>
            (\<forall>p b. (p, b) \<noteq> (pid, a) \<longrightarrow>
               site_records (sys m2) p b = site_records (sys m) p b) \<and>
            (set (map fst order) = set (map fst chain) \<and> length orig \<le> 2 ^ 32 \<longrightarrow>
               mem_read (memory (sys m2)) pid a (length orig) = Some orig) \<and>
            (\<forall>pre h hook post. order = pre @ (h, hook) # post \<longrightarrow>
               (let before = snd (release_each (with_patch_store P E) pre m);
                    after = snd (taiHookReleaseForKernel (with_patch_store P E) h hook before)
                in if map_option handle (patch_at (sys before) pid a) = Some h
                   then Some (memory (sys after)) =
                          mem_write (memory (sys before)) pid a
                            (chain_content P a orig (tl (hooks_at (sys before) pid a)))
                   else memory (sys after) = memory (sys before))) \<and>
            (\<forall>pre c post. history = pre @ c # post \<longrightarrow>
               (let m1 = snd (run_ops (with_patch_store P E) pre m0)
                in patch_at (sys m1) pid a = None \<and>
                   stays_hooked (with_patch_store P E) pid a post
                     (snd (run_op (with_patch_store P E) c m1)) \<longrightarrow>
                   mem_read (memory (sys m1)) pid a (length orig) = Some orig))"
proof -
  let ?E = "with_patch_store P E"
  let ?chain = "hooks_at (sys m) pid a"
  let ?remaining = "filter (\<lambda>x. fst x \<notin> set (map fst order)) ?chain"
  let ?n = "length orig"
  have m: "m = snd (run_ops ?E history m0)" using hist by simp
  have wf: "store_ok P (sys m)" "links_ok (sys m)"
    using run_ops_wf[OF P ok links, of E history] m by simp_all
  note site = hooked_site[OF P wf orig]
  have len: "\<And>g. length (hook_redirect P a g) = ?n" by (rule site(3))
  have clen: "\<And>xs. length (chain_content P a orig xs) = ?n"
    using chain_content_length[of P a orig] len by simp
  from release_each_site[OF P wf site(1) refl len dist sub rel]
  have rets: "rets = replicate (length order) 0"
    and wf2: "store_ok P (sys m2)" "links_ok (sys m2)"
    and cr2: "chain_records pid a orig ?remaining (site_records (sys m2) pid a)"
    and mem2: "memory (sys m2) =
       (if ?chain \<noteq> [] \<and> fst (hd ?chain) \<in> set (map fst order)
        then (memory (sys m))(footprint pid a ?n [\<mapsto>] chain_content P a orig ?remaining)
        else memory (sys m))"
    and hs2: "map handle (patch_store (sys m2))
       = filter (\<lambda>x. x \<notin> set (map fst order)) (map handle (patch_store (sys m)))"
    and oth2: "\<forall>p b. (p, b) \<noteq> (pid, a) \<longrightarrow> site_records (sys m2) p b = site_records (sys m) p b"
    by blast+
  have r1: "resolves (sys m) orig ?chain" using wf(1) site(1) by (rule site_resolves)
  have h2: "hooks_at (sys m2) pid a = ?remaining"
    using chain_records_hooks_of[OF cr2] by (simp add: hooks_at_def)
  have r2: "resolves (sys m2) orig ?remaining" using wf2(1) cr2 by (rule site_resolves)
  have top2: "map_option handle (patch_at (sys m2) pid a) =
      (case ?remaining of [] \<Rightarrow> None | (h, f) # _ \<Rightarrow> Some h)"
    using cr2 by (rule site_top)
  have memw: "Some (memory (sys m2)) =
      (if fst (hd ?chain) \<in> set (map fst order)
       then mem_write (memory (sys m)) pid a (chain_content P a orig ?remaining)
       else Some (memory (sys m)))"
    using mem2 site(2,4) by (simp add: mem_write_def clen)
  have gone: "\<forall>h \<in> set (map fst order). find_handle (sys m2) h = None"
    using handles_gone[OF hs2] by blast
  have all: "set (map fst order) = set (map fst ?chain) \<and> ?n \<le> 2 ^ 32 \<longrightarrow>
      mem_read (memory (sys m2)) pid a ?n = Some orig"
  proof
    assume a: "set (map fst order) = set (map fst ?chain) \<and> ?n \<le> 2 ^ 32"
    then have rem: "?remaining = []" by (auto simp: filter_empty_conv)
    have "fst (hd ?chain) \<in> set (map fst order)" using a site(2) by (cases ?chain) auto
    then have "memory (sys m2) = (memory (sys m))(footprint pid a ?n [\<mapsto>] orig)"
      using mem2 site(2) rem by (simp add: chain_content_def)
    then show "mem_read (memory (sys m2)) pid a ?n = Some orig"
      using mem_read_written[OF site(4)] a by simp
  qed
  have step: "\<forall>pre h hook post. order = pre @ (h, hook) # post \<longrightarrow>
      (let before = snd (release_each ?E pre m);
           after = snd (taiHookReleaseForKernel ?E h hook before)
       in if map_option handle (patch_at (sys before) pid a) = Some h
          then Some (memory (sys after)) =
                 mem_write (memory (sys before)) pid a
                   (chain_content P a orig (tl (hooks_at (sys before) pid a)))
          else memory (sys after) = memory (sys before))"
  proof (intro allI impI)
    fix pre h hook post
    assume split: "order = pre @ (h, hook) # post"
    obtain rs mk where pre: "release_each ?E pre m = (rs, mk)" by (cases "release_each ?E pre m")
    have dpre: "distinct (map fst pre)" and spre: "set (map fst pre) \<subseteq> set (map fst ?chain)"
      and hpre: "h \<notin> set (map fst pre)" and hin: "h \<in> set (map fst ?chain)"
      using dist sub split by auto
    let ?rem = "filter (\<lambda>x. fst x \<notin> set (map fst pre)) ?chain"
    from release_each_site[OF P wf site(1) refl len dpre spre pre]
    have wfk: "store_ok P (sys mk)" "links_ok (sys mk)"
      and crk: "chain_records pid a orig ?rem (site_records (sys mk) pid a)"
      by blast+
    have hk: "hooks_at (sys mk) pid a = ?rem"
      using chain_records_hooks_of[OF crk] by (simp add: hooks_at_def)
    obtain f where fin: "(h, f) \<in> set ?rem" using hin hpre by auto
    then have "?rem \<noteq> []" by (metis empty_iff list.set(1))
    then have nek: "site_records (sys mk) pid a \<noteq> []"
      using chain_records_length[OF crk] by auto
    have cok: "chain_original (sys mk) pid a = Some orig"
      using chain_records_original[OF crk nek] by (simp add: chain_original_def)
    obtain s' where rel': "release P h (sys mk) = (Inr (), s')"
      and mem': "memory s' = (if h = fst (hd ?rem)
                  then (memory (sys mk))(footprint pid a ?n [\<mapsto>]
                         chain_content P a orig (tl ?rem))
                  else memory (sys mk))"
      using release_hook_site[OF P wfk, of h f pid a orig] fin hk cok by auto
    have topk: "map_option handle (patch_at (sys mk) pid a) = Some (fst (hd ?rem))"
      using site_top[OF crk] \<open>?rem \<noteq> []\<close> by (cases ?rem) auto
    have mpk: "mapped (memory (sys mk)) pid a ?n" using hooked_site(4)[OF P wfk cok] .
    have after: "sys (snd (taiHookReleaseForKernel ?E h hook mk)) = s'"
      using rel' by (simp add: hook_release_sys patches_release_def)
    show "let before = snd (release_each ?E pre m);
              after = snd (taiHookReleaseForKernel ?E h hook before)
          in if map_option handle (patch_at (sys before) pid a) = Some h
             then Some (memory (sys after)) =
                    mem_write (memory (sys before)) pid a
                      (chain_content P a orig (tl (hooks_at (sys before) pid a)))
             else memory (sys after) = memory (sys before)"
      unfolding Let_def using pre after mem' topk mpk hk
      by (auto simp: mem_write_def clen)
  qed
  have start: "\<forall>pre c post. history = pre @ c # post \<longrightarrow>
      (let m1 = snd (run_ops ?E pre m0)
       in patch_at (sys m1) pid a = None \<and>
          stays_hooked ?E pid a post (snd (run_op ?E c m1)) \<longrightarrow>
          mem_read (memory (sys m1)) pid a ?n = Some orig)"
  proof (intro allI impI, unfold Let_def, rule impI, elim conjE)
    fix pre c post
    assume split: "history = pre @ c # post"
    let ?m1 = "snd (run_ops ?E pre m0)"
    assume un: "patch_at (sys ?m1) pid a = None"
      and sh: "stays_hooked ?E pid a post (snd (run_op ?E c ?m1))"
    obtain r m1' where c: "run_op ?E c ?m1 = (r, m1')" by (cases "run_op ?E c ?m1")
    have wf1: "store_ok P (sys ?m1)" "links_ok (sys ?m1)"
      using run_ops_wf[OF P ok links, of E pre] by simp_all
    have st: "store_step P (sys ?m1) r (sys m1')" using c by (rule run_op_step)
    have wf1': "store_ok P (sys m1')" "links_ok (sys m1')"
      using step_wf[OF P st wf1] by simp_all
    have empty: "site_records (sys ?m1) pid a = []"
      using un by (auto simp: patch_at_site split: list.splits)
    have sh': "stays_hooked ?E pid a post m1'" using sh c by simp
    then have hooked: "hooks_at (sys m1') pid a \<noteq> []" by (cases post) simp_all
    have "chain_original (sys m1') pid a
        = mem_read (memory (sys ?m1)) pid a (length (hook_redirect P a 0))"
      using step_start[OF P st wf1 empty hooked] .
    moreover have "chain_original (sys (snd (run_ops ?E post m1'))) pid a
        = chain_original (sys m1') pid a"
      using stays_hooked_original[OF P wf1' sh'] .
    moreover have "snd (run_ops ?E post m1') = m"
      unfolding m split run_ops_snd_append run_ops_snd_Cons c by simp
    ultimately show "mem_read (memory (sys ?m1)) pid a ?n = Some orig"
      using orig len[of 0] by simp
  qed
  show ?thesis
    unfolding Let_def
    using rets r1 h2 r2 top2 memw gone oth2 all step[unfolded Let_def] start[unfolded Let_def]
    by blast
qed

theorem chain_release_any_order_witness:
  "fst (run_ops demo_env demo_history demo_machine) = [1, 2, 3]
   \<and> hooks_at (sys demo_chained) 1 0x1000 = [(3, 0x3000), (1, 0x2000)]
   \<and> resolves (sys demo_chained) [0x10, 0x11] [(3, 0x3000), (1, 0x2000)]
   \<and> fst (release_each demo_env [(1, 1)] demo_chained) = [0]
   \<and> resolves (sys (snd (release_each demo_env [(1, 1)] demo_chained))) [0x10, 0x11] [(3, 0x3000)]
   \<and> memory (sys (snd (release_each demo_env [(1, 1)] demo_chained))) = memory (sys demo_chained)
   \<and> fst (release_each demo_env [(3, 3)] demo_chained) = [0]
   \<and> hooks_at (sys (snd (release_each demo_env [(3, 3)] demo_chained))) 1 0x1000 = [(1, 0x2000)]
   \<and> Some (memory (sys (snd (release_each demo_env [(3, 3)] demo_chained))))
        = mem_write (memory (sys demo_chained)) 1 0x1000 [0x20, 0x00]
   \<and> mem_read (memory (sys demo_chained)) 1 0x1000 4 = Some [0x30, 0x00, 0xFF, 0x13]
   \<and> mem_read (memory (sys (snd (release_each demo_env [(3, 3)] demo_chained)))) 1 0x1000 4
        = Some [0x20, 0x00, 0xFF, 0x13]
   \<and> fst (release_each demo_env [(1, 1), (3, 3)] demo_chained) = [0, 0]
   \<and> hooks_at (sys (snd (release_each demo_env [(1, 1), (3, 3)] demo_chained))) 1 0x1000 = []
   \<and> mem_read (memory (sys (snd (release_each demo_env [(1, 1), (3, 3)] demo_chained)))) 1 0x1000 2
        = Some [0x10, 0x11]
   \<and> mem_read (memory (sys (snd (release_each demo_env [(1, 1), (3, 3)] demo_chained)))) 1 0x1000 4
        = Some [0x10, 0x11, 0xFF, 0x13]
   \<and> site_records (sys (snd (release_each demo_env [(1, 1), (3, 3)] demo_chained))) 1 0x1002
        = site_records (sys demo_chained) 1 0x1002
   \<and> mem_read (memory (sys demo_machine)) 1 0x1000 2 = Some [0x10, 0x11]"
proof -
  let ?E = "with_patch_store demo_platform idle_collab"
  let ?o1 = "[(1, 1)] :: (SceUID \<times> tai_hook_ref_t) list"
  let ?o2 = "[(3, 3)] :: (SceUID \<times> tai_hook_ref_t) list"
  let ?o3 = "[(1, 1), (3, 3)] :: (SceUID \<times> tai_hook_ref_t) list"
  let ?orig = "[0x10, 0x11] :: byte list"
  define r1 m1 where "r1 = fst (release_each demo_env ?o1 demo_chained)"
    and "m1 = snd (release_each demo_env ?o1 demo_chained)"
  define r2 m2 where "r2 = fst (release_each demo_env ?o2 demo_chained)"
    and "m2 = snd (release_each demo_env ?o2 demo_chained)"
  define r3 m3 where "r3 = fst (release_each demo_env ?o3 demo_chained)"
    and "m3 = snd (release_each demo_env ?o3 demo_chained)"
  have hist: "run_ops ?E demo_history demo_machine
      = (fst (run_ops demo_env demo_history demo_machine), demo_chained)"
    by (simp add: demo_chained_def demo_env_def)
  have outs: "fst (run_ops demo_env demo_history demo_machine) = [1, 2, 3]" by code_simp
  have chain: "hooks_at (sys demo_chained) 1 0x1000 = [(3, 0x3000), (1, 0x2000)]" by code_simp
  have orig: "chain_original (sys demo_chained) 1 0x1000 = Some ?orig" by code_simp
  have rel1: "release_each ?E ?o1 demo_chained = (r1, m1)"
    and rel2: "release_each ?E ?o2 demo_chained = (r2, m2)"
    and rel3: "release_each ?E ?o3 demo_chained = (r3, m3)"
    by (simp_all add: demo_env_def r1_def m1_def r2_def m2_def r3_def m3_def)
  have sub: "set (map fst ?o1) \<subseteq> set (map fst (hooks_at (sys demo_chained) 1 0x1000))"
    "set (map fst ?o2) \<subseteq> set (map fst (hooks_at (sys demo_chained) 1 0x1000))"
    "set (map fst ?o3) \<subseteq> set (map fst (hooks_at (sys demo_chained) 1 0x1000))"
    unfolding chain by simp_all
  have dist: "distinct (map fst ?o1)" "distinct (map fst ?o2)" "distinct (map fst ?o3)"
    by simp_all
  have rem: "filter (\<lambda>x. fst x \<notin> set (map fst ?o1)) [(3, 0x3000), (1, 0x2000 :: uintptr_t)]
        = [(3, 0x3000)]"
    "filter (\<lambda>x. fst x \<notin> set (map fst ?o2)) [(3, 0x3000), (1, 0x2000 :: uintptr_t)]
        = [(1, 0x2000)]"
    "filter (\<lambda>x. fst x \<notin> set (map fst ?o3)) [(3, 0x3000), (1, 0x2000 :: uintptr_t)] = []"
    by simp_all
  have cc: "chain_content demo_platform 0x1000 ?orig [(1, 0x2000)] = [0x20, 0x00]" by code_simp
  have ev: "mem_read (memory (sys demo_chained)) 1 0x1000 4 = Some [0x30, 0x00, 0xFF, 0x13]"
    "mem_read (memory (sys (snd (release_each demo_env ?o2 demo_chained)))) 1 0x1000 4
        = Some [0x20, 0x00, 0xFF, 0x13]"
    "mem_read (memory (sys (snd (release_each demo_env ?o3 demo_chained)))) 1 0x1000 4
        = Some [0x10, 0x11, 0xFF, 0x13]"
    by code_simp+
  have un: "patch_at (sys (snd (run_ops ?E [] demo_machine))) 1 0x1000 = None"
    by (simp add: demo_machine_def demo_tai_def patch_at_def)
  have sh: "stays_hooked ?E 1 0x1000
      [Inject_abs 1 0x1002 (\<lambda>i. 0xFF) 1, Hook_abs 1 0x1000 0x3000]
      (snd (run_op ?E (Hook_abs 1 0x1000 0x2000) (snd (run_ops ?E [] demo_machine))))"
    by code_simp
  have split: "demo_history = [] @ Hook_abs 1 0x1000 0x2000 #
      [Inject_abs 1 0x1002 (\<lambda>i. 0xFF) 1, Hook_abs 1 0x1000 0x3000]"
    by (simp add: demo_history_def)
  note one = chain_release_any_order[OF demo_platform_ok demo_machine_ok hist orig dist(1) sub(1)
      rel1, unfolded Let_def chain rem]
  note two = chain_release_any_order[OF demo_platform_ok demo_machine_ok hist orig dist(2) sub(2)
      rel2, unfolded Let_def chain rem]
  note three = chain_release_any_order[OF demo_platform_ok demo_machine_ok hist orig dist(3) sub(3)
      rel3, unfolded Let_def chain rem]
  have start: "mem_read (memory (sys demo_machine)) 1 0x1000 2 = Some ?orig"
    using one[THEN conjunct2, THEN conjunct2, THEN conjunct2, THEN conjunct2, THEN conjunct2,
        THEN conjunct2, THEN conjunct2, THEN conjunct2, THEN conjunct2, THEN conjunct2,
        rule_format, OF split conjI[OF un sh]] by (simp add: numeral_2_eq_2)
  have all: "set (map fst ?o3) = set (map fst [(3, 0x3000), (1, 0x2000 :: uintptr_t)]) \<and>
      length ?orig \<le> 2 ^ 32"
    by auto
  show ?thesis
    unfolding r1_def[symmetric] m1_def[symmetric] r2_def[symmetric] m2_def[symmetric] r3_def[symmetric] m3_def[symmetric]
  proof (intro conjI, goal_cases)
    case 1 show ?case by (rule outs)
  next
    case 2 show ?case by (rule chain)
  next
    case 3 show ?case by (rule one[THEN conjunct2, THEN conjunct1])
  next
    case 4 show ?case using one[THEN conjunct1] by simp
  next
    case 5 show ?case by (rule one[THEN conjunct2, THEN conjunct2, THEN conjunct2, THEN conjunct1])
  next
    case 6 show ?case using one[THEN conjunct2, THEN conjunct2, THEN conjunct2,
        THEN conjunct2, THEN conjunct2, THEN conjunct1] by simp
  next
    case 7 show ?case using two[THEN conjunct1] by simp
  next
    case 8 show ?case by (rule two[THEN conjunct2, THEN conjunct2, THEN conjunct1])
  next
    case 9 show ?case using two[THEN conjunct2, THEN conjunct2, THEN conjunct2,
        THEN conjunct2, THEN conjunct2, THEN conjunct1] cc by simp
  next
    case 10 show ?case by (rule ev(1))
  next
    case 11 show ?case using ev(2) by (simp only: m2_def)
  next
    case 12 show ?case using three[THEN conjunct1] by simp
  next
    case 13 show ?case by (rule three[THEN conjunct2, THEN conjunct2, THEN conjunct1])
  next
    case 14 show ?case using three[THEN conjunct2, THEN conjunct2, THEN conjunct2,
        THEN conjunct2, THEN conjunct2, THEN conjunct2, THEN conjunct2, THEN conjunct2,
        THEN conjunct1, THEN mp, OF all] by (simp add: numeral_2_eq_2)
  next
    case 15 show ?case using ev(3) by (simp only: m3_def)
  next
    case 16 show ?case using three[THEN conjunct2, THEN conjunct2, THEN conjunct2,
        THEN conjunct2, THEN conjunct2, THEN conjunct2, THEN conjunct2,
        THEN conjunct1] by simp
  next
    case 17 show ?case by (rule start)
  qed
qed

end
